theory Spec2Isabelle
  imports Main
begin

section \<open>Strings and paths of the Go standard library\<close>

text \<open>
  A Go string is a sequence of bytes; it is modelled as a \<^typ>\<open>string\<close> (a list of 8-bit
  characters). The provisioner runs on Linux, so the path separator is the slash and
  a path has no volume name.
\<close>

definition Separator :: char where
  "Separator = CHR ''/''"

text \<open>\<open>strings.HasPrefix\<close>.\<close>

definition HasPrefix :: "string \<Rightarrow> string \<Rightarrow> bool" where
  "HasPrefix s pre = (take (length pre) s = pre)"

text \<open>
  \<open>strings.Index\<close>: the index of the first occurrence of \<open>sub\<close> in \<open>s\<close>, or no index
  (Go returns -1). The empty string occurs at index 0.
\<close>

fun Index :: "string \<Rightarrow> string \<Rightarrow> nat option" where
  "Index [] sub = (if sub = [] then Some 0 else None)"
| "Index (c # cs) sub =
     (if HasPrefix (c # cs) sub then Some 0
      else map_option Suc (Index cs sub))"

text \<open>
  \<open>strings.Replace(s, old, new, 1)\<close>: the first occurrence of \<open>old\<close> is replaced. Go
  returns \<open>s\<close> itself when \<open>old = new\<close> or when \<open>old\<close> does not occur; the empty \<open>old\<close>
  occurs at the start of \<open>s\<close>.
\<close>

definition Replace1 :: "string \<Rightarrow> string \<Rightarrow> string \<Rightarrow> string" where
  "Replace1 s old new =
     (if old = new then s
      else case Index s old of
             None \<Rightarrow> s
           | Some j \<Rightarrow> take j s @ new @ drop (j + length old) s)"

text \<open>
  \<open>strings.ReplaceAll(s, old, new)\<close>: every non-overlapping occurrence of \<open>old\<close>, found
  from the left, is replaced. For the empty \<open>old\<close> Go inserts \<open>new\<close> before every UTF-8
  sequence and at the end; the model inserts it before every byte and at the end, which
  is the same on ASCII text (the templater never passes an empty \<open>old\<close>, see
  \<open>match_at_length\<close> below).
\<close>

function ReplaceAll :: "string \<Rightarrow> string \<Rightarrow> string \<Rightarrow> string" where
  "ReplaceAll s old new =
     (if old = [] then new @ concat (map (\<lambda>c. c # new) s)
      else if s = [] then []
      else if HasPrefix s old then new @ ReplaceAll (drop (length old) s) old new
      else hd s # ReplaceAll (tl s) old new)"
  by pat_completeness auto
termination
  by (relation "measure (\<lambda>(s, old, new). length s)") auto

declare ReplaceAll.simps [simp del]

text \<open>\<open>strings.Join(elems, "/")\<close>.\<close>

fun join_sep :: "string list \<Rightarrow> string" where
  "join_sep [] = []"
| "join_sep [e] = e"
| "join_sep (e # e' # es) = e @ Separator # join_sep (e' # es)"

text \<open>The fields of a path between its separators: one more than it has separators.\<close>

fun split_sep :: "string \<Rightarrow> string list" where
  "split_sep [] = [[]]"
| "split_sep (c # cs) =
     (if c = Separator then [] # split_sep cs
      else case split_sep cs of
             [] \<Rightarrow> [[c]]
           | e # es \<Rightarrow> (c # e) # es)"

text \<open>
  \<open>filepath.Clean\<close>, by the rules of its documentation, applied until none applies:
  a run of separators becomes one; a \<open>.\<close> element is dropped; an inner \<open>..\<close> element is
  dropped with the element before it; a \<open>..\<close> that begins a rooted path is dropped. The
  result ends in a separator only when it is the root, and the empty result is \<open>.\<close>.

  Go's loop reads the path element by element and keeps the elements written so far in
  an output buffer; \<open>clean_step\<close> is one turn of that loop on the list \<open>out\<close> of elements
  written. An element \<open>..\<close> takes the last element away when that is a real one (Go:
  \<open>out.w > dotdot\<close>); otherwise it is written when the path is not rooted, and dropped
  when it is.
\<close>

definition clean_step :: "bool \<Rightarrow> string list \<Rightarrow> string \<Rightarrow> string list" where
  "clean_step rooted out e =
     (if e = [] \<or> e = ''.'' then out
      else if e = ''..'' then
        (if out \<noteq> [] \<and> last out \<noteq> ''..'' then butlast out
         else if rooted then out
         else out @ [''..''])
      else out @ [e])"

definition clean_elems :: "bool \<Rightarrow> string \<Rightarrow> string list" where
  "clean_elems rooted path = foldl (clean_step rooted) [] (split_sep path)"

definition Clean :: "string \<Rightarrow> string" where
  "Clean path =
     (if path = [] then ''.''
      else let rooted = (hd path = Separator);
               out = clean_elems rooted path
           in if rooted then Separator # join_sep out
              else if out = [] then ''.''
              else join_sep out)"

text \<open>
  \<open>filepath.Dir\<close>: everything up to and including the last separator, cleaned.
\<close>

definition Dir :: "string \<Rightarrow> string" where
  "Dir path = Clean (rev (dropWhile (\<lambda>c. c \<noteq> Separator) (rev path)))"

text \<open>
  \<open>filepath.Base\<close>: the last element of the path, after trailing separators are
  removed; \<open>.\<close> for the empty path and the separator for a path of separators only.
\<close>

definition Base :: "string \<Rightarrow> string" where
  "Base path =
     (if path = [] then ''.''
      else let p = rev (dropWhile (\<lambda>c. c = Separator) (rev path));
               e = rev (takeWhile (\<lambda>c. c \<noteq> Separator) (rev p))
           in if e = [] then [Separator] else e)"

text \<open>
  \<open>filepath.Join\<close>: the elements from the first non-empty one on, joined by separators
  and cleaned; the empty string when every element is empty.
\<close>

definition Join :: "string list \<Rightarrow> string" where
  "Join elem =
     (case dropWhile (\<lambda>e. e = []) elem of
        [] \<Rightarrow> []
      | es \<Rightarrow> Clean (join_sep es))"


text \<open>
  \<open>strconv.ParseBool\<close>: the twelve spellings Go accepts; anything else is a syntax
  error that carries the string.
\<close>

datatype os_error = OsError (IsNotExist: bool) (Message: string)

datatype error =
    ErrSelector
  | ErrMkdir os_error
  | ErrOS os_error
  | ErrNoClient
  | ErrNoClass
  | ErrClient string
  | ErrParseBool string

definition ParseBool :: "string \<Rightarrow> error + bool" where
  "ParseBool str =
     (if str \<in> set [''1'', ''t'', ''T'', ''TRUE'', ''true'', ''True''] then Inr True
      else if str \<in> set [''0'', ''f'', ''F'', ''FALSE'', ''false'', ''False''] then Inr False
      else Inl (ErrParseBool str))"

subsection \<open>The clock\<close>

text \<open>
  \<open>time.Now()\<close> is a reading of the local clock, a parameter of the model.
  \<open>Format("200601021504")\<close> prints the year on four digits and the month, the day, the
  hour (of 24) and the minute on two digits each, padded with zeros and with nothing
  between them.
\<close>

record time =
  Year :: nat
  Month :: nat
  Day :: nat
  Hour :: nat
  Minute :: nat
  Second :: nat

fun utoa :: "nat \<Rightarrow> string" where
  "utoa n = (if n < 10 then [''0123456789'' ! n]
             else utoa (n div 10) @ [''0123456789'' ! (n mod 10)])"

declare utoa.simps [simp del]

definition appendInt :: "nat \<Rightarrow> nat \<Rightarrow> string" where
  "appendInt x width = replicate (width - length (utoa x)) (CHR ''0'') @ utoa x"

definition Format_200601021504 :: "time \<Rightarrow> string" where
  "Format_200601021504 t =
     appendInt (Year t) 4 @ appendInt (Month t) 2 @ appendInt (Day t) 2 @
     appendInt (Hour t) 2 @ appendInt (Minute t) 2"

section \<open>The path templater\<close>

record pvcMetadata =
  data :: "string \<rightharpoonup> string"
  labels :: "string \<rightharpoonup> string"
  annotations :: "string \<rightharpoonup> string"

text \<open>Reading a Go map: a key that is absent (or a nil map) gives the empty string.\<close>

definition lookup :: "(string \<rightharpoonup> string) \<Rightarrow> string \<Rightarrow> string" where
  "lookup m k = (case m k of None \<Rightarrow> [] | Some v \<Rightarrow> v)"

text \<open>
  The pattern \<^verbatim>\<open>\${\.PVC\.((labels|annotations)\.(.*?)|.*?)}\<close>. A match starts with the
  seven bytes \<^verbatim>\<open>${.PVC.\<close> and ends at the first closing brace after them; the dot of
  the pattern matches no newline, so there is no match when a newline comes before
  that brace. Both repetitions are lazy and both branches end at the same brace; the
  first branch is preferred, so groups 2 and 3 are set exactly when the text between
  \<^verbatim>\<open>${.PVC.\<close> and the closing brace begins with \<^verbatim>\<open>labels.\<close> or \<^verbatim>\<open>annotations.\<close>. A group that
  took no part in the match is the empty string.

  \<open>match_at s\<close> is the match that starts at the first byte of \<open>s\<close>, as the list
  \<open>[r[0], r[1], r[2], r[3]]\<close> of the whole match and its three groups.
\<close>

definition match_groups :: "string \<Rightarrow> string list" where
  "match_groups body =
     (if HasPrefix body ''labels.'' then [''labels'', drop 7 body]
      else if HasPrefix body ''annotations.'' then [''annotations'', drop 12 body]
      else [[], []])"

definition match_at :: "string \<Rightarrow> string list option" where
  "match_at s =
     (if HasPrefix s ''${.PVC.'' then
        (let rest = drop 7 s;
             body = takeWhile (\<lambda>c. c \<noteq> CHR ''}'' \<and> c \<noteq> CHR 0x0A) rest
         in if HasPrefix (drop (length body) rest) ''}''
            then Some ((''${.PVC.'' @ body @ ''}'') # body # match_groups body)
            else None)
      else None)"

lemma HasPrefix_length: "HasPrefix s pre \<Longrightarrow> length pre \<le> length s"
  unfolding HasPrefix_def by (metis length_take min.cobounded1)

lemma match_at_length:
  assumes "match_at s = Some r"
  shows "8 \<le> length (r ! 0) \<and> length (r ! 0) \<le> length s"
proof -
  define rest where "rest = drop 7 s"
  define body where "body = takeWhile (\<lambda>c. c \<noteq> CHR ''}'' \<and> c \<noteq> CHR 0x0A) rest"
  from assms have pre: "HasPrefix s ''${.PVC.''"
    by (simp add: match_at_def split: if_splits)
  from assms pre have brace: "HasPrefix (drop (length body) rest) ''}''"
    by (simp add: match_at_def Let_def rest_def body_def split: if_splits)
  from assms pre brace have r: "r = (''${.PVC.'' @ body @ ''}'') # body # match_groups body"
    by (simp add: match_at_def Let_def rest_def body_def split: if_splits)
  from HasPrefix_length [OF pre] have "7 \<le> length s" by simp
  moreover from HasPrefix_length [OF brace] have "length body < length rest" by simp
  moreover have "length rest = length s - 7" by (simp add: rest_def)
  ultimately show ?thesis by (simp add: r)
qed

text \<open>
  \<open>pattern.FindAllStringSubmatch(str, -1)\<close>: the matches from left to right, each search
  starting where the match before it ended.
\<close>

function FindAllStringSubmatch :: "string \<Rightarrow> string list list" where
  "FindAllStringSubmatch s =
     (if s = [] then []
      else case match_at s of
             Some r \<Rightarrow> r # FindAllStringSubmatch (drop (length (r ! 0)) s)
           | None \<Rightarrow> FindAllStringSubmatch (tl s))"
  by pat_completeness auto
termination
  by (relation "measure length") (auto dest: match_at_length)

declare FindAllStringSubmatch.simps [simp del]

definition substitute :: "pvcMetadata \<Rightarrow> string \<Rightarrow> string list \<Rightarrow> string" where
  "substitute meta str r =
     (if r ! 2 = ''labels'' then ReplaceAll str (r ! 0) (lookup (labels meta) (r ! 3))
      else if r ! 2 = ''annotations'' then ReplaceAll str (r ! 0) (lookup (annotations meta) (r ! 3))
      else ReplaceAll str (r ! 0) (lookup (data meta) (r ! 1)))"

definition stringParser :: "pvcMetadata \<Rightarrow> string \<Rightarrow> string" where
  "stringParser meta str = foldl (substitute meta) str (FindAllStringSubmatch str)"

section \<open>The objects of the cluster\<close>

text \<open>
  The fields the provisioner reads and writes, under their Go names. A Go pointer that
  may be nil is an \<^typ>\<open>'a option\<close>; a quantity is a number of bytes, zero when the
  request map has no entry.
\<close>

datatype LabelSelector = LabelSelector "(string \<times> string) list"

record StorageClass =
  Parameters :: "string \<rightharpoonup> string"
  ReclaimPolicy :: "string option"
  MountOptions :: "string list"

record PersistentVolumeClaim =
  Namespace :: string
  Name :: string
  Labels :: "string \<rightharpoonup> string"
  Annotations :: "string \<rightharpoonup> string"
  Selector :: "LabelSelector option"
  AccessModes :: "string list"
  Requests :: "string \<rightharpoonup> nat"

record ProvisionOptions =
  StorageClass :: StorageClass
  PVName :: string
  PVC :: PersistentVolumeClaim

record NFSVolumeSource =
  Server :: string
  Path :: string
  ReadOnly :: bool

record PersistentVolume =
  pv_Name :: string
  pv_Annotations :: "string \<rightharpoonup> string"
  StorageClassName :: string
  PersistentVolumeReclaimPolicy :: string
  pv_AccessModes :: "string list"
  pv_MountOptions :: "string list"
  Capacity :: "string \<rightharpoonup> nat"
  NFS :: "NFSVolumeSource option"

text \<open>
  The provisioner: the client of the management plane (nil, or the function that
  fetches a storage class by name), the server and the export root.
\<close>

record nfsProvisioner =
  client :: "(string \<Rightarrow> error + StorageClass) option"
  server :: string
  path :: string

text \<open>
  Modelled from the spec: the controller library's outcome ``finished, do not retry'';
  the library is not part of the sources. An outcome is a Go string there, and this one
  is the string \<open>Finished\<close>.
\<close>

type_synonym ProvisioningState = string

definition ProvisioningFinished :: ProvisioningState where
  "ProvisioningFinished = ''Finished''"

definition mountPath :: string where
  "mountPath = ''/persistentvolumes/''"

definition archiveSubPath :: string where
  "archiveSubPath = ''_archived_''"

section \<open>The file system\<close>

text \<open>
  The calls the provisioner makes to package \<open>os\<close>. What a call returns is for the
  operating system to say: \<open>os\<close> is any function from the calls made so far and the
  call made now to its error (\<open>None\<close> is Go's nil). Every function below takes the list
  of the calls made so far and returns it extended, so the list returned is the
  record of what was done to the file system, in order.
\<close>

datatype os_call =
    Stat string
  | MkdirAll string nat
  | Chmod string nat
  | Remove string
  | RemoveAll string
  | Rename string string

type_synonym os = "os_call list \<Rightarrow> os_call \<Rightarrow> os_error option"

text \<open>The permission bits \<open>0o777\<close> and \<open>0755\<close> (octal).\<close>

definition mode_0o777 :: nat where
  "mode_0o777 = 7 * 64 + 7 * 8 + 7"

definition mode_0755 :: nat where
  "mode_0755 = 7 * 64 + 5 * 8 + 5"

text \<open>A Go call either returns or panics (a nil pointer is dereferenced).\<close>

datatype 'a outcome = Panics | Returns 'a

text \<open>\<open>os.IsNotExist(err)\<close>: false of the nil error.\<close>

definition os_IsNotExist :: "os_error option \<Rightarrow> bool" where
  "os_IsNotExist err = (case err of None \<Rightarrow> False | Some e \<Rightarrow> IsNotExist e)"

section \<open>Provision\<close>

text \<open>Line 96: the name of the directory when the class gives no pattern.\<close>

definition pvName :: "ProvisionOptions \<Rightarrow> string" where
  "pvName options =
     Namespace (PVC options) @ ''-'' @ Name (PVC options) @ ''-'' @ PVName options"

text \<open>Lines 98 to 106: what the pattern of the class can refer to.\<close>

definition metadata :: "ProvisionOptions \<Rightarrow> pvcMetadata" where
  "metadata options =
     \<lparr> data = [''name'' \<mapsto> Name (PVC options), ''namespace'' \<mapsto> Namespace (PVC options),
               ''pvname'' \<mapsto> PVName options],
       labels = Labels (PVC options),
       annotations = Annotations (PVC options) \<rparr>"

text \<open>
  Lines 108 to 118 of \<open>Provision\<close>: the path of the directory on the export (\<open>path\<close>) and
  under the local mount (\<open>fullPath\<close>), returned in this order.
\<close>

definition provisionPaths :: "nfsProvisioner \<Rightarrow> ProvisionOptions \<Rightarrow> string \<times> string" where
  "provisionPaths p options =
     (case Parameters (StorageClass options) ''pathPattern'' of
        None \<Rightarrow> (Join [path p, pvName options], Join [mountPath, pvName options])
      | Some pathPattern \<Rightarrow>
          (let customPath = stringParser (metadata options) pathPattern
           in if customPath \<noteq> []
              then (Join [path p, customPath], Join [mountPath, customPath])
              else (Join [path p, pvName options], Join [mountPath, pvName options])))"

definition Provision ::
  "nfsProvisioner \<Rightarrow> os \<Rightarrow> os_call list \<Rightarrow> ProvisionOptions \<Rightarrow>
     (PersistentVolume option \<times> ProvisioningState \<times> error option) outcome \<times> os_call list" where
  "Provision p os tr options =
     (if Selector (PVC options) \<noteq> None then (Returns (None, ProvisioningFinished, Some ErrSelector), tr)
      else
        (let (pth, fullPath) = provisionPaths p options;
             tr1 = tr @ [MkdirAll fullPath mode_0o777]
         in case os tr (MkdirAll fullPath mode_0o777) of
              Some err \<Rightarrow> (Returns (None, ProvisioningFinished, Some (ErrMkdir err)), tr1)
            | None \<Rightarrow>
                (let tr2 = tr1 @ [Chmod fullPath mode_0o777]
                 in case os tr1 (Chmod fullPath mode_0o777) of
                      Some err \<Rightarrow> (Returns (None, [], Some (ErrOS err)), tr2)
                    | None \<Rightarrow>
                        (case ReclaimPolicy (StorageClass options) of
                           None \<Rightarrow> (Panics, tr2)
                         | Some policy \<Rightarrow>
                             (Returns
                                (Some \<lparr> pv_Name = PVName options,
                                         pv_Annotations = Map.empty,
                                         StorageClassName = [],
                                         PersistentVolumeReclaimPolicy = policy,
                                         pv_AccessModes = AccessModes (PVC options),
                                         pv_MountOptions = MountOptions (StorageClass options),
                                         Capacity =
                                           [''storage'' \<mapsto>
                                              (case Requests (PVC options) ''storage'' of
                                                 None \<Rightarrow> 0 | Some q \<Rightarrow> q)],
                                         NFS = Some \<lparr> Server = server p, Path = pth,
                                                       ReadOnly = False \<rparr> \<rparr>,
                                 ProvisioningFinished, None),
                              tr2)))))"

section \<open>Delete\<close>

text \<open>
  \<open>pruneEmptyParents\<close> calls itself on the parent for as long as \<open>os.Remove\<close> succeeds
  and the path is not the mount root. Nothing in the code bounds the walk, so a call
  that does not return is the value \<open>None\<close>.
\<close>

partial_function (option) pruneEmptyParents :: "os \<Rightarrow> os_call list \<Rightarrow> string \<Rightarrow> os_call list option" where
  "pruneEmptyParents os tr pth =
     (if Clean pth = Clean mountPath then Some tr
      else case os tr (Remove pth) of
             None \<Rightarrow> pruneEmptyParents os (tr @ [Remove pth]) (Dir pth)
           | Some err \<Rightarrow> Some (tr @ [Remove pth]))"

definition deleteAndPruneEmptyParents ::
  "os \<Rightarrow> os_call list \<Rightarrow> string \<Rightarrow> (error option outcome \<times> os_call list) option" where
  "deleteAndPruneEmptyParents os tr pth =
     (case os tr (RemoveAll pth) of
        Some err \<Rightarrow> Some (Returns (Some (ErrOS err)), tr @ [RemoveAll pth])
      | None \<Rightarrow>
          (case pruneEmptyParents os (tr @ [RemoveAll pth]) (Dir pth) of
             None \<Rightarrow> None
           | Some tr' \<Rightarrow> Some (Returns None, tr')))"

text \<open>
  \<open>buildArchivePath\<close> calls itself on the parent until the path is the mount root; the
  clock is read there. A call that does not return is the value \<open>None\<close>.
\<close>

partial_function (option) buildArchivePath :: "time \<Rightarrow> string \<Rightarrow> string option" where
  "buildArchivePath now pth =
     (if Clean pth = Clean mountPath then Some (archiveSubPath @ ''/'' @ Format_200601021504 now)
      else Option.bind (buildArchivePath now (Dir pth))
             (\<lambda>parent. Some (parent @ ''.'' @ Base pth)))"

text \<open>
  \<open>storagehelpers.GetPersistentVolumeClass\<close>: the beta annotation when the volume has
  it, the class name of its spec otherwise.
\<close>

definition GetPersistentVolumeClass :: "PersistentVolume \<Rightarrow> string" where
  "GetPersistentVolumeClass pv =
     (case pv_Annotations pv ''volume.beta.kubernetes.io/storage-class'' of
        Some class \<Rightarrow> class
      | None \<Rightarrow> StorageClassName pv)"

definition getClassForVolume :: "nfsProvisioner \<Rightarrow> PersistentVolume \<Rightarrow> error + StorageClass" where
  "getClassForVolume p pv =
     (case client p of
        None \<Rightarrow> Inl ErrNoClient
      | Some get \<Rightarrow>
          (let className = GetPersistentVolumeClass pv
           in if className = [] then Inl ErrNoClass else get className))"

text \<open>Lines 221 to 235 of \<open>Delete\<close>: the directory is moved under the archive directory.\<close>

definition archive ::
  "os \<Rightarrow> time \<Rightarrow> os_call list \<Rightarrow> string \<Rightarrow> (error option outcome \<times> os_call list) option" where
  "archive os now tr oldPath =
     (case buildArchivePath now oldPath of
        None \<Rightarrow> None
      | Some a \<Rightarrow>
          (let archivePath = Join [mountPath, a];
               archiveDir = Join [mountPath, archiveSubPath];
               tr1 = tr @ [Stat archiveDir];
               tr2 = (if os_IsNotExist (os tr (Stat archiveDir))
                      then tr1 @ [MkdirAll archiveDir mode_0755] else tr1);
               tr3 = tr2 @ [Rename oldPath archivePath]
           in case os tr2 (Rename oldPath archivePath) of
                None \<Rightarrow>
                  (case pruneEmptyParents os tr3 (Dir oldPath) of
                     None \<Rightarrow> None
                   | Some tr' \<Rightarrow> Some (Returns None, tr'))
              | Some err \<Rightarrow> Some (Returns (Some (ErrOS err)), tr3)))"

text \<open>
  \<open>oldPath\<close>, the local path of a volume: the first occurrence of the export root in
  the volume's path is replaced by the mount root (line 184).
\<close>

definition localPath :: "nfsProvisioner \<Rightarrow> string \<Rightarrow> string" where
  "localPath p pth = Replace1 pth (path p) mountPath"

definition Delete ::
  "nfsProvisioner \<Rightarrow> os \<Rightarrow> time \<Rightarrow> os_call list \<Rightarrow> PersistentVolume \<Rightarrow>
     (error option outcome \<times> os_call list) option" where
  "Delete p os now tr volume =
     (case NFS volume of
        None \<Rightarrow> Some (Panics, tr)
      | Some nfs \<Rightarrow>
          (let oldPath = localPath p (Path nfs);
               tr1 = tr @ [Stat oldPath]
           in if os_IsNotExist (os tr (Stat oldPath)) then Some (Returns None, tr1)
              else case getClassForVolume p volume of
                     Inl err \<Rightarrow> Some (Returns (Some err), tr1)
                   | Inr storageClass \<Rightarrow>
                       (let onDelete = lookup (Parameters storageClass) ''onDelete''
                        in if onDelete = ''delete'' then deleteAndPruneEmptyParents os tr1 oldPath
                           else if onDelete = ''retain'' then Some (Returns None, tr1)
                           else case Parameters storageClass ''archiveOnDelete'' of
                                  None \<Rightarrow> archive os now tr1 oldPath
                                | Some archiveOnDelete \<Rightarrow>
                                    (case ParseBool archiveOnDelete of
                                       Inl err \<Rightarrow> Some (Returns (Some err), tr1)
                                     | Inr archiveBool \<Rightarrow>
                                         if \<not> archiveBool
                                         then deleteAndPruneEmptyParents os tr1 oldPath
                                         else archive os now tr1 oldPath))))"

text \<open>
  The calls that change the file system: every one but \<open>os.Stat\<close>.
\<close>

fun mutates :: "os_call \<Rightarrow> bool" where
  "mutates (Stat f) = False"
| "mutates c = True"

section \<open>Examples\<close>

text \<open>
  The request of the specification's examples: claim \<open>claim1\<close> of namespace \<open>ns1\<close> with the
  generated name \<open>pvc-abc\<close>, on a provisioner whose export root is \<open>/export\<close>.
\<close>

definition ex_claim :: PersistentVolumeClaim where
  "ex_claim = \<lparr> Namespace = ''ns1'', Name = ''claim1'', Labels = [''team'' \<mapsto> ''infra''],
                 Annotations = Map.empty, Selector = None, AccessModes = [''ReadWriteMany''],
                 Requests = [''storage'' \<mapsto> 1024] \<rparr>"

definition ex_class :: StorageClass where
  "ex_class = \<lparr> Parameters = Map.empty, ReclaimPolicy = Some ''Delete'', MountOptions = [] \<rparr>"

definition ex_options :: ProvisionOptions where
  "ex_options = \<lparr> StorageClass = ex_class, PVName = ''pvc-abc'', PVC = ex_claim \<rparr>"

definition ex_provisioner :: nfsProvisioner where
  "ex_provisioner = \<lparr> client = None, server = ''10.0.0.1'', path = ''/export'' \<rparr>"

definition ex_volume :: PersistentVolume where
  "ex_volume = \<lparr> pv_Name = ''pvc-abc'', pv_Annotations = Map.empty, StorageClassName = ''nfs'',
                  PersistentVolumeReclaimPolicy = ''Delete'', pv_AccessModes = [''ReadWriteMany''],
                  pv_MountOptions = [], Capacity = [''storage'' \<mapsto> 1024],
                  NFS = Some \<lparr> Server = ''10.0.0.1'', Path = ''/export/ns1-claim1-pvc-abc'',
                                ReadOnly = False \<rparr> \<rparr>"

definition ex_time :: time where
  "ex_time = \<lparr> Year = 2024, Month = 5, Day = 1, Hour = 10, Minute = 30, Second = 7 \<rparr>"

text \<open>
  The metadata of the example claim with an annotation whose value is itself written like
  a placeholder, and the example request with a pattern in its class.
\<close>

definition ex_meta :: pvcMetadata where
  "ex_meta = \<lparr> data = [''name'' \<mapsto> ''claim1'', ''namespace'' \<mapsto> ''ns1'', ''pvname'' \<mapsto> ''pvc-abc''],
                labels = [''team'' \<mapsto> ''infra''],
                annotations = [''note'' \<mapsto> ''${.PVC.name}''] \<rparr>"

definition ex_options_pattern :: "string \<Rightarrow> ProvisionOptions" where
  "ex_options_pattern pat =
     ex_options \<lparr> StorageClass := ex_class \<lparr> Parameters := [''pathPattern'' \<mapsto> pat] \<rparr> \<rparr>"

text \<open>Operating systems: one where every call succeeds, and some where a call fails.\<close>

definition os_ok :: os where
  "os_ok tr c = None"

definition os_chmod_fails :: os where
  "os_chmod_fails tr c =
     (case c of Chmod f m \<Rightarrow> Some (OsError False ''operation not permitted'') | _ \<Rightarrow> None)"

definition os_missing :: os where
  "os_missing tr c =
     (case c of Stat f \<Rightarrow> Some (OsError True ''no such file or directory'') | _ \<Rightarrow> None)"

definition os_root_busy :: os where
  "os_root_busy tr c =
     (if c = Remove ''/'' then Some (OsError False ''device or resource busy'') else None)"

definition os_team_in_use :: os where
  "os_team_in_use tr c =
     (if c = Remove ''/persistentvolumes/team'' then Some (OsError False ''directory not empty'')
      else None)"


section \<open>Properties of the string functions\<close>

lemma HasPrefix_iff: "HasPrefix s pre \<longleftrightarrow> (\<exists>b. s = pre @ b)"
  unfolding HasPrefix_def
  by (metis append_eq_conv_conj append_take_drop_id)

lemma Index_None: "Index s sub = None \<Longrightarrow> s \<noteq> a @ sub @ b"
proof (induction s arbitrary: a)
  case Nil
  then show ?case by (auto split: if_splits)
next
  case (Cons c cs)
  from Cons.prems have np: "\<not> HasPrefix (c # cs) sub" and rec: "Index cs sub = None"
    by (auto split: if_splits)
  show ?case
  proof (cases a)
    case Nil
    with np show ?thesis by (auto simp: HasPrefix_iff)
  next
    case (Cons x xs)
    with Cons.IH [OF rec, of xs] show ?thesis by auto
  qed
qed

lemma Index_Some:
  "Index s sub = Some j \<Longrightarrow>
     j \<le> length s \<and> take (length sub) (drop j s) = sub \<and>
     (\<forall>a b. s = a @ sub @ b \<longrightarrow> j \<le> length a)"
proof (induction s arbitrary: j)
  case Nil
  then show ?case by (auto split: if_splits)
next
  case (Cons c cs)
  show ?case
  proof (cases "HasPrefix (c # cs) sub")
    case True
    with Cons.prems show ?thesis by (auto simp: HasPrefix_def)
  next
    case False
    with Cons.prems obtain k where k: "Index cs sub = Some k" "j = Suc k" by auto
    from Cons.IH [OF k(1)] have ih: "k \<le> length cs" "take (length sub) (drop k cs) = sub"
      "\<And>a b. cs = a @ sub @ b \<Longrightarrow> k \<le> length a" by auto
    have "j \<le> length a" if "c # cs = a @ sub @ b" for a b
    proof (cases a)
      case Nil
      with that False show ?thesis by (auto simp: HasPrefix_iff)
    next
      case (Cons x xs)
      with that ih(3) [of xs b] k(2) show ?thesis by auto
    qed
    with ih k(2) show ?thesis by auto
  qed
qed

lemma Index_first:
  assumes "s = a @ sub @ b" and "\<And>a' b'. s = a' @ sub @ b' \<Longrightarrow> length a \<le> length a'"
  shows "Index s sub = Some (length a)"
proof (cases "Index s sub")
  case None
  with Index_None assms(1) show ?thesis by blast
next
  case (Some j)
  from Index_Some [OF Some] have j: "j \<le> length s" "take (length sub) (drop j s) = sub"
    "j \<le> length a" using assms(1) by auto
  have "s = take j s @ sub @ drop (j + length sub) s"
    by (metis j(2) append_take_drop_id drop_drop add.commute)
  from assms(2) [OF this] j(1) have "length a \<le> j" by simp
  with j(3) Some show ?thesis by simp
qed

section \<open>The library functions on known values\<close>

text \<open>
  The models of the library functions, evaluated on examples from the documentation and
  the tests of the Go packages \<open>path/filepath\<close>, \<open>strings\<close>, \<open>strconv\<close>, \<open>regexp\<close> and
  \<open>time\<close>.
\<close>

lemma Clean_vectors:
  "Clean ''abc'' = ''abc''" "Clean ''abc/def'' = ''abc/def''" "Clean ''.'' = ''.''"
  "Clean ''..'' = ''..''" "Clean ''../..'' = ''../..''" "Clean ''../../abc'' = ''../../abc''"
  "Clean ''/abc'' = ''/abc''" "Clean ''/'' = ''/''" "Clean [] = ''.''"
  "Clean ''abc/'' = ''abc''" "Clean ''a/b/c/'' = ''a/b/c''" "Clean ''./'' = ''.''"
  "Clean ''../'' = ''..''" "Clean ''../../'' = ''../..''" "Clean ''/abc/'' = ''/abc''"
  "Clean ''abc//def//ghi'' = ''abc/def/ghi''" "Clean ''//abc'' = ''/abc''"
  "Clean ''///abc'' = ''/abc''" "Clean ''//abc//'' = ''/abc''" "Clean ''abc//'' = ''abc''"
  "Clean ''abc/./def'' = ''abc/def''" "Clean ''/./abc/def'' = ''/abc/def''"
  "Clean ''abc/.'' = ''abc''" "Clean ''abc/def/ghi/../jkl'' = ''abc/def/jkl''"
  "Clean ''abc/def/../ghi/../jkl'' = ''abc/jkl''" "Clean ''abc/def/..'' = ''abc''"
  "Clean ''abc/def/../..'' = ''.''" "Clean ''/abc/def/../..'' = ''/''"
  "Clean ''abc/def/../../..'' = ''..''" "Clean ''/abc/def/../../..'' = ''/''"
  "Clean ''abc/def/../../../ghi/jkl/../../../mno'' = ''../../mno''"
  "Clean ''/../abc'' = ''/abc''" "Clean ''abc/./../def'' = ''def''"
  "Clean ''abc//./../def'' = ''def''" "Clean ''abc/../../././../def'' = ''../../def''"
  by (simp_all add: Clean_def clean_elems_def clean_step_def Separator_def)

lemma Dir_vectors:
  "Dir [] = ''.''" "Dir ''.'' = ''.''" "Dir ''/.'' = ''/''" "Dir ''/'' = ''/''"
  "Dir ''/foo'' = ''/''" "Dir ''x/'' = ''x''" "Dir ''abc'' = ''.''" "Dir ''abc/def'' = ''abc''"
  "Dir ''a/b/.x'' = ''a/b''" "Dir ''a/b/c.'' = ''a/b''" "Dir ''////'' = ''/''"
  by (simp_all add: Dir_def Clean_def clean_elems_def clean_step_def Separator_def)

lemma Base_vectors:
  "Base [] = ''.''" "Base ''.'' = ''.''" "Base ''/.'' = ''.''" "Base ''/'' = ''/''"
  "Base ''////'' = ''/''" "Base ''x/'' = ''x''" "Base ''abc'' = ''abc''"
  "Base ''abc/def'' = ''def''" "Base ''a/b/.x'' = ''.x''" "Base ''a/b/c.'' = ''c.''"
  by (simp_all add: Base_def Separator_def)

lemma Join_vectors:
  "Join [''a'', ''b'', ''c''] = ''a/b/c''" "Join [''a'', ''b/c''] = ''a/b/c''"
  "Join [''a'', []] = ''a''" "Join [[], ''b''] = ''b''" "Join [''/'', ''a''] = ''/a''"
  "Join [''/'', []] = ''/''" "Join [''/a'', ''b''] = ''/a/b''" "Join [''a/'', ''b''] = ''a/b''"
  "Join [''a/'', []] = ''a''" "Join [[], []] = []" "Join [''/'', ''a'', ''b''] = ''/a/b''"
  "Join [] = []" "Join [''/''] = ''/''"
  by (simp_all add: Join_def Clean_def clean_elems_def clean_step_def Separator_def)

lemma Replace_vectors:
  "Replace1 ''oink oink oink'' ''k'' ''ky'' = ''oinky oink oink''"
  "Replace1 ''banana'' ''x'' ''y'' = ''banana''"
  "Replace1 ''banana'' [] ''<>'' = ''<>banana''"
  "Replace1 ''banana'' ''an'' ''an'' = ''banana''"
  "ReplaceAll ''oink oink oink'' ''oink'' ''moo'' = ''moo moo moo''"
  "ReplaceAll ''banana'' ''ana'' ''<>'' = ''b<>na''"
  "ReplaceAll ''banana'' ''a'' [] = ''bnn''"
  by (simp_all add: Replace1_def HasPrefix_def ReplaceAll.simps)

lemma pattern_vectors:
  "FindAllStringSubmatch ''${.PVC.namespace}/${.PVC.labels.team}-${.PVC.annotations.nfs.io/path}'' =
     [[''${.PVC.namespace}'', ''namespace'', [], []],
      [''${.PVC.labels.team}'', ''labels.team'', ''labels'', ''team''],
      [''${.PVC.annotations.nfs.io/path}'', ''annotations.nfs.io/path'', ''annotations'', ''nfs.io/path'']]"
  "FindAllStringSubmatch ''a${.PVC.labels}b${.PVC.}c${PVC.name}'' =
     [[''${.PVC.labels}'', ''labels'', [], []], [''${.PVC.}'', [], [], []]]"
  "FindAllStringSubmatch ''${.PVC.na${.PVC.name}}'' =
     [[''${.PVC.na${.PVC.name}'', ''na${.PVC.name'', [], []]]"
  "FindAllStringSubmatch (''${.PVC.na'' @ [CHR 0x0A] @ ''me}-${.PVC.name}'') =
     [[''${.PVC.name}'', ''name'', [], []]]"
  "FindAllStringSubmatch ''${.PVC.name'' = []"
  by (simp_all add: FindAllStringSubmatch.simps match_at_def match_groups_def HasPrefix_def)

lemma ParseBool_vectors:
  "ParseBool ''true'' = Inr True" "ParseBool ''T'' = Inr True" "ParseBool ''1'' = Inr True"
  "ParseBool ''false'' = Inr False" "ParseBool ''F'' = Inr False" "ParseBool ''0'' = Inr False"
  "ParseBool ''yes'' = Inl (ErrParseBool ''yes'')" "ParseBool [] = Inl (ErrParseBool [])"
  "ParseBool ''tRUE'' = Inl (ErrParseBool ''tRUE'')"
  by (simp_all add: ParseBool_def)

lemma Format_vectors:
  "Format_200601021504 \<lparr> Year = 2024, Month = 5, Day = 1, Hour = 10, Minute = 30, Second = 59 \<rparr> =
     ''202405011030''"
  "Format_200601021504 \<lparr> Year = 987, Month = 12, Day = 31, Hour = 0, Minute = 5, Second = 0 \<rparr> =
     ''098712310005''"
  by (simp_all add: Format_200601021504_def appendInt_def utoa.simps)

section \<open>Provision\<close>

text \<open>
  Claim C3. A request whose claim has a selector is refused: \<open>Provision\<close> returns no
  volume, the outcome \<open>ProvisioningFinished\<close> and an error, and makes no call to the file
  system (the list of calls is returned as it was).
\<close>

theorem Provision_selector:
  "Selector (PVC options) \<noteq> None \<Longrightarrow>
     Provision p os tr options = (Returns (None, ProvisioningFinished, Some ErrSelector), tr)"
  by (simp add: Provision_def)

theorem Provision_selector_witness:
  "Provision ex_provisioner os_ok []
       (ex_options \<lparr> PVC := ex_claim \<lparr> Selector := Some (LabelSelector []) \<rparr> \<rparr>)
     = (Returns (None, ProvisioningFinished, Some ErrSelector), [])"
  using Provision_selector [of "ex_options \<lparr> PVC := ex_claim \<lparr> Selector := Some (LabelSelector []) \<rparr> \<rparr>"
      ex_provisioner os_ok "[]"]
  by simp

lemma ex_paths:
  "provisionPaths ex_provisioner ex_options =
     (''/export/ns1-claim1-pvc-abc'', ''/persistentvolumes/ns1-claim1-pvc-abc'')"
  by (simp add: provisionPaths_def pvName_def ex_provisioner_def ex_options_def ex_claim_def
      ex_class_def Join_def Clean_def clean_elems_def clean_step_def mountPath_def Separator_def)

text \<open>
  Claim C8. Not every outcome that \<open>Provision\<close> returns is \<open>ProvisioningFinished\<close>: when the
  directory is created and \<open>os.Chmod\<close> fails, line 126 returns the empty outcome with
  the error. The request of the examples, on a system where \<open>os.Chmod\<close> fails:
\<close>

theorem Provision_chmod_failure_outcome:
  "Provision ex_provisioner os_chmod_fails [] ex_options =
     (Returns (None, [], Some (ErrOS (OsError False ''operation not permitted''))),
      [MkdirAll ''/persistentvolumes/ns1-claim1-pvc-abc'' mode_0o777,
       Chmod ''/persistentvolumes/ns1-claim1-pvc-abc'' mode_0o777])
   \<and> [] \<noteq> ProvisioningFinished"
  by (simp add: Provision_def ex_paths os_chmod_fails_def ProvisioningFinished_def)
    (simp add: ex_options_def ex_claim_def)

section \<open>Delete of a path that does not exist\<close>

lemma ex_localPath:
  "localPath p ''/export/ns1-claim1-pvc-abc'' =
     (if path p = ''/export'' then ''/persistentvolumes//ns1-claim1-pvc-abc''
      else localPath p ''/export/ns1-claim1-pvc-abc'')"
  by (simp add: localPath_def Replace1_def HasPrefix_def mountPath_def)

text \<open>
  Claim C6. When the local path of the volume does not exist, \<open>Delete\<close> returns the nil
  error and the only call it has made is the \<open>os.Stat\<close> that said so: nothing is
  changed in the file system. The storage class is not looked at, so this holds of
  every provisioner, also of one that cannot resolve the class.
\<close>

theorem Delete_missing_path:
  assumes "NFS volume = Some nfs"
    and "os_IsNotExist (os tr (Stat (localPath p (Path nfs))))"
  shows "Delete p os now tr volume = Some (Returns None, tr @ [Stat (localPath p (Path nfs))]) \<and>
         filter mutates (tr @ [Stat (localPath p (Path nfs))]) = filter mutates tr"
  using assms by (simp add: Delete_def Let_def)

theorem Delete_missing_path_witness:
  "getClassForVolume ex_provisioner ex_volume = Inl ErrNoClient \<and>
   Delete ex_provisioner os_missing ex_time [] ex_volume =
     Some (Returns None, [Stat ''/persistentvolumes//ns1-claim1-pvc-abc''])"
proof -
  have lp: "localPath ex_provisioner ''/export/ns1-claim1-pvc-abc'' =
      ''/persistentvolumes//ns1-claim1-pvc-abc''"
    by (subst ex_localPath) (simp add: ex_provisioner_def)
  have "Delete ex_provisioner os_missing ex_time [] ex_volume =
      Some (Returns None, [Stat ''/persistentvolumes//ns1-claim1-pvc-abc''])"
    using Delete_missing_path [where volume = ex_volume and os = os_missing and tr = "[]"
        and p = ex_provisioner and now = ex_time
        and nfs = "\<lparr> Server = ''10.0.0.1'', Path = ''/export/ns1-claim1-pvc-abc'', ReadOnly = False \<rparr>"]
    by (simp add: ex_volume_def lp os_IsNotExist_def os_missing_def)
  moreover have "getClassForVolume ex_provisioner ex_volume = Inl ErrNoClient"
    by (simp add: getClassForVolume_def ex_provisioner_def)
  ultimately show ?thesis by simp
qed

section \<open>Paths as lists of elements\<close>

text \<open>
  A rooted clean path is a slash followed by its elements, separated by slashes. The
  lemmas of this section relate \<open>Clean\<close>, \<open>Dir\<close> and \<open>Base\<close> to that list.
\<close>

text \<open>
  An element that \<open>Clean\<close> keeps in a rooted path: not empty, without a slash, and
  neither \<open>.\<close> nor \<open>..\<close>. \<open>abs_path\<close> writes the rooted path of a list of elements.
\<close>

definition proper :: "string \<Rightarrow> bool" where
  "proper e \<longleftrightarrow> e \<noteq> [] \<and> Separator \<notin> set e \<and> e \<noteq> ''.'' \<and> e \<noteq> ''..''"

definition abs_path :: "string list \<Rightarrow> string" where
  "abs_path es = Separator # join_sep es"

lemma split_sep_nonempty: "split_sep s \<noteq> []"
  by (induction s) (auto split: list.splits)

lemma split_sep_single: "Separator \<notin> set a \<Longrightarrow> split_sep a = [a]"
  by (induction a) auto

lemma split_sep_append: "split_sep (a @ Separator # b) = split_sep a @ split_sep b"
proof (induction a)
  case Nil
  then show ?case by simp
next
  case (Cons c a)
  then show ?case
    using split_sep_nonempty [of a] by (cases "split_sep a") auto
qed

lemma split_sep_fields: "e \<in> set (split_sep s) \<Longrightarrow> Separator \<notin> set e"
proof (induction s arbitrary: e)
  case Nil
  then show ?case by simp
next
  case (Cons c s)
  then show ?case
    by (cases "split_sep s") (auto split: if_splits)
qed

lemma foldl_clean_proper:
  "list_all proper es \<Longrightarrow> foldl (clean_step r) out es = out @ es"
  by (induction es arbitrary: out) (auto simp: clean_step_def proper_def)

lemma clean_step_proper:
  "list_all proper out \<Longrightarrow> Separator \<notin> set e \<Longrightarrow> list_all proper (clean_step True out e)"
  by (auto simp: clean_step_def proper_def list_all_iff dest: in_set_butlastD)

lemma foldl_clean_step_proper:
  "list_all proper out \<Longrightarrow> (\<forall>e \<in> set es. Separator \<notin> set e) \<Longrightarrow>
     list_all proper (foldl (clean_step True) out es)"
  by (induction es arbitrary: out) (auto simp: clean_step_proper)

lemma clean_elems_proper: "list_all proper (clean_elems True p)"
  unfolding clean_elems_def
  by (rule foldl_clean_step_proper) (auto dest: split_sep_fields)

lemma split_join_sep:
  "es \<noteq> [] \<Longrightarrow> (\<forall>e \<in> set es. Separator \<notin> set e) \<Longrightarrow> split_sep (join_sep es) = es"
proof (induction es rule: join_sep.induct)
  case 1
  then show ?case by simp
next
  case (2 e)
  then show ?case by (simp add: split_sep_single)
next
  case (3 e e' es)
  then show ?case
    using split_sep_append [of e "join_sep (e' # es)"] by (simp add: split_sep_single)
qed

lemma clean_elems_abs_path:
  assumes "list_all proper es"
  shows "clean_elems True (abs_path es) = es"
proof (cases "es = []")
  case True
  then show ?thesis
    by (simp add: clean_elems_def abs_path_def clean_step_def)
next
  case False
  from assms have "\<forall>e \<in> set es. Separator \<notin> set e"
    by (auto simp: list_all_iff proper_def)
  with False have "split_sep (abs_path es) = [] # es"
    using split_sep_append [of "[]" "join_sep es"] by (simp add: abs_path_def split_join_sep)
  with assms show ?thesis
    by (simp add: clean_elems_def foldl_clean_proper clean_step_def)
qed

lemma Clean_abs:
  "p \<noteq> [] \<Longrightarrow> hd p = Separator \<Longrightarrow> Clean p = abs_path (clean_elems True p)"
  by (simp add: Clean_def abs_path_def Let_def)

lemma Clean_abs_path: "list_all proper es \<Longrightarrow> Clean (abs_path es) = abs_path es"
  using Clean_abs [of "abs_path es"] by (simp add: clean_elems_abs_path) (simp add: abs_path_def)

lemma abs_path_inject:
  "list_all proper es \<Longrightarrow> list_all proper es' \<Longrightarrow> abs_path es = abs_path es' \<Longrightarrow> es = es'"
  by (metis clean_elems_abs_path)

text \<open>The last field and what is before it.\<close>

definition dir_prefix :: "string \<Rightarrow> string" where
  "dir_prefix p = rev (dropWhile (\<lambda>c. c \<noteq> Separator) (rev p))"

definition last_field :: "string \<Rightarrow> string" where
  "last_field p = rev (takeWhile (\<lambda>c. c \<noteq> Separator) (rev p))"

lemma dir_prefix_last_field: "dir_prefix p @ last_field p = p"
  unfolding dir_prefix_def last_field_def
  by (metis rev_append rev_rev_ident takeWhile_dropWhile_id)

lemma last_field_no_sep: "Separator \<notin> set (last_field p)"
  unfolding last_field_def by (auto dest: set_takeWhileD)

lemma dir_prefix_ends: "dir_prefix p = [] \<or> last (dir_prefix p) = Separator"
  unfolding dir_prefix_def
  by (metis (mono_tags, lifting) dropWhile_eq_Nil_conv hd_dropWhile last_rev rev_is_Nil_conv)

lemma dir_prefix_append:
  "Separator \<notin> set e \<Longrightarrow> dir_prefix (a @ Separator # e) = a @ [Separator]"
  unfolding dir_prefix_def by (auto simp: dropWhile_append3)

lemma last_field_append:
  assumes "Separator \<notin> set e"
  shows "last_field (a @ Separator # e) = e"
proof -
  have tw: "takeWhile (\<lambda>c. c \<noteq> Separator) (rev e) = rev e"
    by (rule takeWhile_eq_all_conv [THEN iffD2]) (use assms in auto)
  show ?thesis
    unfolding last_field_def by (simp add: takeWhile_tail tw)
qed

lemma clean_elems_snoc:
  assumes "Separator \<notin> set e" and "a = [] \<or> last a = Separator"
  shows "clean_elems r (a @ e) = clean_step r (clean_elems r a) e"
proof (cases "a = []")
  case True
  with assms(1) show ?thesis
    by (simp add: clean_elems_def split_sep_single clean_step_def)
next
  case False
  with assms(2) obtain b where a: "a = b @ [Separator]"
    by (metis append_butlast_last_id)
  have "split_sep (a @ e) = split_sep b @ [e]"
    using split_sep_append [of b e] assms(1) by (simp add: a split_sep_single)
  moreover have "split_sep a = split_sep b @ [[]]"
    using split_sep_append [of b "[]"] by (simp add: a)
  ultimately show ?thesis
    by (simp add: clean_elems_def clean_step_def)
qed

lemma clean_elems_last_field:
  "clean_elems r p = clean_step r (clean_elems r (dir_prefix p)) (last_field p)"
  using clean_elems_snoc [where e = "last_field p" and a = "dir_prefix p" and r = r]
    last_field_no_sep [of p] dir_prefix_ends [of p]
  by (simp add: dir_prefix_last_field)

lemma Dir_dir_prefix: "Dir p = Clean (dir_prefix p)"
  by (simp add: Dir_def dir_prefix_def)

lemma hd_dir_prefix: "p \<noteq> [] \<Longrightarrow> hd p = Separator \<Longrightarrow> dir_prefix p \<noteq> [] \<and> hd (dir_prefix p) = Separator"
  using dir_prefix_last_field [of p] last_field_no_sep [of p]
  by (cases "dir_prefix p") (auto simp: neq_Nil_conv)

lemma Dir_abs:
  "p \<noteq> [] \<Longrightarrow> hd p = Separator \<Longrightarrow> Dir p = abs_path (clean_elems True (dir_prefix p))"
  using hd_dir_prefix [of p] by (simp add: Dir_dir_prefix Clean_abs)

section \<open>Paths within the mount root\<close>

text \<open>
  A path is within the mount when its cleaned form is the mount root or begins with
  the mount root and a slash.
\<close>

definition within_mount :: "string \<Rightarrow> bool" where
  "within_mount pth \<longleftrightarrow> HasPrefix (Clean pth @ [Separator]) mountPath"

lemma Clean_mountPath: "Clean mountPath = ''/persistentvolumes''"
  by (simp add: mountPath_def Clean_def clean_elems_def clean_step_def Separator_def)

lemma Clean_mountPath_abs: "Clean mountPath = abs_path [''persistentvolumes'']"
  by (simp add: Clean_mountPath abs_path_def Separator_def)

lemma proper_pv: "proper ''persistentvolumes''"
  by (simp add: proper_def Separator_def)

lemma first_sep_unique:
  assumes "Separator \<notin> set a" and "Separator \<notin> set b"
    and "a @ Separator # x = b @ Separator # y"
  shows "a = b"
proof -
  have "takeWhile (\<lambda>c. c \<noteq> Separator) (a @ Separator # x) = a"
    using assms(1) by (auto simp: takeWhile_tail)
  moreover have "takeWhile (\<lambda>c. c \<noteq> Separator) (b @ Separator # y) = b"
    using assms(2) by (auto simp: takeWhile_tail)
  ultimately show ?thesis using assms(3) by simp
qed

lemma abs_path_Cons:
  "\<exists>rest. abs_path (e # es) @ [Separator] = Separator # e @ Separator # rest"
  by (cases es) (auto simp: abs_path_def)

lemma within_abs_path:
  assumes "list_all proper es"
  shows "HasPrefix (abs_path es @ [Separator]) mountPath \<longleftrightarrow>
           (es \<noteq> [] \<and> hd es = ''persistentvolumes'')"
proof (cases es)
  case Nil
  then show ?thesis
    by (simp add: abs_path_def HasPrefix_def mountPath_def Separator_def)
next
  case (Cons e es')
  from abs_path_Cons [of e es'] obtain rest
    where r: "abs_path (e # es') @ [Separator] = Separator # e @ Separator # rest" by blast
  have mp: "mountPath = Separator # ''persistentvolumes'' @ Separator # []"
    by (simp add: mountPath_def Separator_def)
  from assms Cons have pe: "Separator \<notin> set e" by (simp add: proper_def)
  have "HasPrefix (Separator # e @ Separator # rest) mountPath \<longleftrightarrow> e = ''persistentvolumes''"
  proof
    assume "HasPrefix (Separator # e @ Separator # rest) mountPath"
    then obtain b where "e @ Separator # rest = ''persistentvolumes'' @ Separator # b"
      by (auto simp: HasPrefix_iff mp)
    from first_sep_unique [OF pe _ this] show "e = ''persistentvolumes''"
      using proper_pv by (simp add: proper_def)
  next
    assume "e = ''persistentvolumes''"
    then show "HasPrefix (Separator # e @ Separator # rest) mountPath"
      by (simp add: HasPrefix_iff mp)
  qed
  with r Cons show ?thesis by simp
qed

lemma within_mount_abs:
  assumes "p \<noteq> []" and "hd p = Separator"
  shows "within_mount p \<longleftrightarrow> (\<exists>rest. clean_elems True p = ''persistentvolumes'' # rest)"
  using within_abs_path [OF clean_elems_proper, of p] Clean_abs [OF assms]
  by (cases "clean_elems True p") (auto simp: within_mount_def)

text \<open>A path that is not rooted stays so when it is cleaned.\<close>

definition plain :: "string \<Rightarrow> bool" where
  "plain e \<longleftrightarrow> e \<noteq> [] \<and> Separator \<notin> set e"

lemma clean_step_plain:
  "list_all plain out \<Longrightarrow> Separator \<notin> set e \<Longrightarrow> list_all plain (clean_step r out e)"
  by (auto simp: clean_step_def plain_def list_all_iff Separator_def dest: in_set_butlastD)

lemma foldl_clean_step_plain:
  "list_all plain out \<Longrightarrow> (\<forall>e \<in> set es. Separator \<notin> set e) \<Longrightarrow>
     list_all plain (foldl (clean_step r) out es)"
  by (induction es arbitrary: out) (auto simp: clean_step_plain)

lemma clean_elems_plain: "list_all plain (clean_elems r p)"
  unfolding clean_elems_def
  by (rule foldl_clean_step_plain) (auto dest: split_sep_fields)

lemma hd_join_sep: "es \<noteq> [] \<Longrightarrow> list_all plain es \<Longrightarrow> join_sep es \<noteq> [] \<and> hd (join_sep es) \<noteq> Separator"
  by (cases es rule: join_sep.cases) (auto simp: plain_def neq_Nil_conv)

lemma Clean_relative:
  assumes "p = [] \<or> hd p \<noteq> Separator"
  shows "Clean p \<noteq> [] \<and> hd (Clean p) \<noteq> Separator"
proof (cases "p = []")
  case True
  then show ?thesis by (simp add: Clean_def Separator_def)
next
  case False
  with assms have "hd p \<noteq> Separator" by simp
  with False show ?thesis
    using hd_join_sep [OF _ clean_elems_plain, of False p]
    by (auto simp: Clean_def Let_def Separator_def)
qed

lemma not_within_relative:
  assumes "p = [] \<or> hd p \<noteq> Separator"
  shows "\<not> within_mount p"
proof -
  from Clean_relative [OF assms] obtain c cs where "Clean p = c # cs" "c \<noteq> Separator"
    by (cases "Clean p") auto
  then show ?thesis
    by (simp add: within_mount_def HasPrefix_def mountPath_def Separator_def)
qed

lemma within_mount_rooted: "within_mount p \<Longrightarrow> p \<noteq> [] \<and> hd p = Separator"
  using not_within_relative by blast

lemma Clean_rooted: "p \<noteq> [] \<Longrightarrow> hd p = Separator \<Longrightarrow> Clean p \<noteq> [] \<and> hd (Clean p) = Separator"
  by (simp add: Clean_abs abs_path_def)

lemma dir_prefix_relative:
  assumes "p = [] \<or> hd p \<noteq> Separator"
  shows "dir_prefix p = [] \<or> hd (dir_prefix p) \<noteq> Separator"
  using dir_prefix_last_field [of p] assms
  by (cases "dir_prefix p") (auto dest: arg_cong [where f = hd])

lemma Dir_relative:
  "p = [] \<or> hd p \<noteq> Separator \<Longrightarrow> Dir p \<noteq> [] \<and> hd (Dir p) \<noteq> Separator"
  unfolding Dir_dir_prefix by (rule Clean_relative) (rule dir_prefix_relative)

lemma Dir_rooted: "p \<noteq> [] \<Longrightarrow> hd p = Separator \<Longrightarrow> Dir p \<noteq> [] \<and> hd (Dir p) = Separator"
  by (simp add: Dir_abs abs_path_def)

lemma within_mount_abs_path:
  "list_all proper es \<Longrightarrow> within_mount (abs_path es) \<longleftrightarrow> (es \<noteq> [] \<and> hd es = ''persistentvolumes'')"
  by (simp add: within_mount_def Clean_abs_path within_abs_path)

text \<open>One step up from a path within the mount.\<close>

lemma within_mount_Dir:
  assumes "within_mount p" and "Clean p \<noteq> Clean mountPath"
  shows "within_mount (Dir p)"
proof -
  from within_mount_rooted [OF assms(1)] have rt: "p \<noteq> []" "hd p = Separator" by auto
  define X where "X = clean_elems True (dir_prefix p)"
  have pX: "list_all proper X" by (simp add: X_def clean_elems_proper)
  from assms(1) rt obtain rest where es: "clean_elems True p = ''persistentvolumes'' # rest"
    by (auto simp: within_mount_abs)
  with assms(2) rt have rest: "rest \<noteq> []"
    by (auto simp: Clean_abs Clean_mountPath_abs)
  have step: "clean_step True X (last_field p) = ''persistentvolumes'' # rest"
    using clean_elems_last_field [of True p] es by (simp add: X_def)
  have "X \<noteq> [] \<and> hd X = ''persistentvolumes''"
  proof (cases "X = []")
    case True
    with step rest show ?thesis
      by (auto simp: clean_step_def split: if_splits)
  next
    case False
    with step rest show ?thesis
      by (cases X) (auto simp: clean_step_def butlast_append split: if_splits)
  qed
  with pX show ?thesis
    using Dir_abs [OF rt] by (simp add: X_def [symmetric] within_mount_abs_path)
qed

section \<open>The walk from a path to the mount root\<close>

lemma abs_path_snoc:
  "abs_path (es @ [e]) = (if es = [] then [] else abs_path es) @ Separator # e"
proof (induction es rule: join_sep.induct)
  case 1
  then show ?case by (simp add: abs_path_def)
next
  case (2 x)
  then show ?case by (simp add: abs_path_def)
next
  case (3 x y ys)
  then show ?case by (simp add: abs_path_def)
qed

lemma last_field_abs_path:
  "list_all proper (es @ [e]) \<Longrightarrow> last_field (abs_path (es @ [e])) = e"
  by (simp add: abs_path_snoc last_field_append proper_def)

lemma Dir_abs_path:
  assumes "list_all proper (es @ [e])"
  shows "Dir (abs_path (es @ [e])) = abs_path es"
proof -
  let ?p = "abs_path (es @ [e])"
  define X where "X = clean_elems True (dir_prefix ?p)"
  have rt: "?p \<noteq> []" "hd ?p = Separator" by (simp_all add: abs_path_def)
  from assms have e: "proper e" by simp
  have "es @ [e] = clean_step True X e"
    using clean_elems_last_field [of True ?p] clean_elems_abs_path [OF assms]
      last_field_abs_path [OF assms] by (simp add: X_def)
  also have "\<dots> = X @ [e]"
    using e by (simp add: clean_step_def proper_def)
  finally have "X = es" by simp
  with Dir_abs [OF rt] show ?thesis by (simp add: X_def)
qed

lemma Base_abs_path:
  assumes "list_all proper (es @ [e])"
  shows "Base (abs_path (es @ [e])) = e"
proof -
  let ?p = "abs_path (es @ [e])"
  from assms have e: "e \<noteq> []" "Separator \<notin> set e" by (simp_all add: proper_def)
  then have "last ?p \<noteq> Separator"
    by (simp add: abs_path_snoc) (metis last_in_set)
  moreover have "?p \<noteq> []" by (simp add: abs_path_def)
  ultimately have dw: "dropWhile (\<lambda>c. c = Separator) (rev ?p) = rev ?p"
    by (cases "rev ?p") (auto simp: last_rev [symmetric] simp del: last_rev)
  have lf: "rev (takeWhile (\<lambda>c. c \<noteq> Separator) (rev ?p)) = e"
    using last_field_abs_path [OF assms] by (simp add: last_field_def)
  from lf e(1) have ne: "takeWhile (\<lambda>c. c \<noteq> Separator) (rev ?p) \<noteq> []" by auto
  show ?thesis
    by (simp add: Base_def Let_def dw lf ne \<open>?p \<noteq> []\<close>)
qed

lemma abs_path_neq_mount:
  "list_all proper (es @ [e]) \<Longrightarrow> Clean (abs_path (''persistentvolumes'' # es @ [e])) \<noteq> Clean mountPath"
  using abs_path_inject [of "''persistentvolumes'' # es @ [e]" "[''persistentvolumes'']"]
  by (auto simp: Clean_abs_path Clean_mountPath_abs proper_pv)

text \<open>The archive path of a clean path within the mount.\<close>

lemma buildArchivePath_abs_path:
  "list_all proper es \<Longrightarrow>
     buildArchivePath now (abs_path (''persistentvolumes'' # es)) =
       Some (archiveSubPath @ ''/'' @ Format_200601021504 now @ concat (map ((#) (CHR ''.'')) es))"
proof (induction es rule: rev_induct)
  case Nil
  have "Clean (abs_path [''persistentvolumes'']) = Clean mountPath"
    by (simp add: Clean_abs_path Clean_mountPath_abs proper_pv)
  then show ?case
    by (subst buildArchivePath.simps) simp
next
  case (snoc e es)
  then have pr: "list_all proper ((''persistentvolumes'' # es) @ [e])"
    by (simp add: proper_pv)
  from snoc.prems have ne: "Clean (abs_path (''persistentvolumes'' # es @ [e])) \<noteq> Clean mountPath"
    by (rule abs_path_neq_mount)
  from snoc have ih: "buildArchivePath now (abs_path (''persistentvolumes'' # es)) =
       Some (archiveSubPath @ ''/'' @ Format_200601021504 now @ concat (map ((#) (CHR ''.'')) es))"
    by simp
  show ?case
    using ne Dir_abs_path [OF pr] Base_abs_path [OF pr] ih
    by (subst buildArchivePath.simps) simp
qed

lemma pruneEmptyParents_abs_path:
  "list_all proper es \<Longrightarrow>
     \<exists>tr'. pruneEmptyParents os tr (abs_path (''persistentvolumes'' # es)) = Some tr'"
proof (induction es arbitrary: tr rule: rev_induct)
  case Nil
  have "Clean (abs_path [''persistentvolumes'']) = Clean mountPath"
    by (simp add: Clean_abs_path Clean_mountPath_abs proper_pv)
  then show ?case
    by (subst pruneEmptyParents.simps) simp
next
  case (snoc e es)
  then have pr: "list_all proper ((''persistentvolumes'' # es) @ [e])"
    by (simp add: proper_pv)
  from snoc.prems have ne: "Clean (abs_path (''persistentvolumes'' # es @ [e])) \<noteq> Clean mountPath"
    by (rule abs_path_neq_mount)
  from snoc have ih: "\<And>tr. \<exists>tr'. pruneEmptyParents os tr (abs_path (''persistentvolumes'' # es)) = Some tr'"
    by simp
  show ?case
    using ne Dir_abs_path [OF pr] ih
    by (subst pruneEmptyParents.simps) (simp split: option.split)
qed

text \<open>Every path within the mount is, once cleaned, of this form.\<close>

lemma within_mount_Clean:
  assumes "within_mount p"
  shows "\<exists>es. list_all proper es \<and> Clean p = abs_path (''persistentvolumes'' # es)"
proof -
  from within_mount_rooted [OF assms] have rt: "p \<noteq> []" "hd p = Separator" by auto
  with assms obtain rest where "clean_elems True p = ''persistentvolumes'' # rest"
    by (auto simp: within_mount_abs)
  moreover from this clean_elems_proper [of p] have "list_all proper rest" by simp
  ultimately show ?thesis using Clean_abs [OF rt] by auto
qed

lemma within_mount_Dir_form:
  assumes "within_mount (Dir p)"
  shows "\<exists>es. list_all proper es \<and> Dir p = abs_path (''persistentvolumes'' # es)"
proof -
  have rt: "p \<noteq> [] \<and> hd p = Separator"
  proof (rule ccontr)
    assume "\<not> ?thesis"
    then have "p = [] \<or> hd p \<noteq> Separator" by blast
    from Dir_relative [OF this] have "\<not> within_mount (Dir p)"
      by (intro not_within_relative) simp
    with assms show False by simp
  qed
  then have d: "Dir p = abs_path (clean_elems True (dir_prefix p))"
    by (simp add: Dir_abs)
  with assms within_mount_abs_path [OF clean_elems_proper, of "dir_prefix p"]
  obtain rest where "clean_elems True (dir_prefix p) = ''persistentvolumes'' # rest"
    by (cases "clean_elems True (dir_prefix p)") auto
  moreover from this clean_elems_proper [of "dir_prefix p"] have "list_all proper rest" by simp
  ultimately show ?thesis using d by auto
qed

lemma within_mount_Dir_Dir:
  assumes "within_mount (Dir (Dir p))"
  shows "within_mount (Dir p)"
proof -
  from within_mount_Dir_form [OF assms] obtain es
    where es: "list_all proper es" "Dir (Dir p) = abs_path (''persistentvolumes'' # es)" by blast
  have rt: "p \<noteq> [] \<and> hd p = Separator"
  proof (rule ccontr)
    assume "\<not> ?thesis"
    then have "p = [] \<or> hd p \<noteq> Separator" by blast
    from Dir_relative [OF this] have "Dir p = [] \<or> hd (Dir p) \<noteq> Separator" by simp
    from Dir_relative [OF this] have "\<not> within_mount (Dir (Dir p))"
      by (intro not_within_relative) simp
    with assms show False by simp
  qed
  define X where "X = clean_elems True (dir_prefix p)"
  have pX: "list_all proper X" by (simp add: X_def clean_elems_proper)
  from rt have d: "Dir p = abs_path X" by (simp add: Dir_abs X_def)
  show ?thesis
  proof (cases X rule: rev_cases)
    case Nil
    with d have "Dir p = ''/''" by (simp add: abs_path_def Separator_def)
    then have "Dir (Dir p) = ''/''"
      by (simp add: Dir_def Clean_def clean_elems_def clean_step_def Separator_def)
    with assms show ?thesis
      by (simp add: within_mount_def Clean_def clean_elems_def clean_step_def Separator_def
          HasPrefix_def mountPath_def)
  next
    case (snoc ys y)
    with pX d have "Dir (Dir p) = abs_path ys" by (simp add: Dir_abs_path)
    with es have "abs_path ys = abs_path (''persistentvolumes'' # es)" by simp
    from abs_path_inject [OF _ _ this] pX snoc es(1) have "ys = ''persistentvolumes'' # es"
      by (simp add: proper_pv)
    with d snoc pX show ?thesis by (simp add: within_mount_abs_path)
  qed
qed

lemma within_mount_eq: "Clean p = Clean mountPath \<Longrightarrow> within_mount p"
  by (simp add: within_mount_def Clean_mountPath) (simp add: HasPrefix_def mountPath_def Separator_def)

text \<open>When \<open>buildArchivePath\<close> returns.\<close>

lemma buildArchivePath_Some_within:
  assumes r: "buildArchivePath now p = Some y"
  shows "Clean p = Clean mountPath \<or> within_mount (Dir p)"
proof (rule buildArchivePath.raw_induct
    [OF _ r, where P = "\<lambda>now p y. Clean p = Clean mountPath \<or> within_mount (Dir p)"])
  fix f :: "time \<Rightarrow> string \<Rightarrow> string option" and now p y
  assume ih: "\<And>n q z. f n q = Some z \<Longrightarrow> Clean q = Clean mountPath \<or> within_mount (Dir q)"
    and eq: "(if Clean p = Clean mountPath
              then Some (archiveSubPath @ ''/'' @ Format_200601021504 now)
              else Option.bind (f now (Dir p)) (\<lambda>parent. Some (parent @ ''.'' @ Base p))) = Some y"
  show "Clean p = Clean mountPath \<or> within_mount (Dir p)"
  proof (cases "Clean p = Clean mountPath")
    case True
    then show ?thesis by simp
  next
    case False
    with eq obtain r where "f now (Dir p) = Some r"
      by (auto simp: bind_eq_Some_conv)
    from ih [OF this] show ?thesis
      by (auto intro: within_mount_eq within_mount_Dir_Dir)
  qed
qed

lemma buildArchivePath_returns_iff:
  "buildArchivePath now p \<noteq> None \<longleftrightarrow> Clean p = Clean mountPath \<or> within_mount (Dir p)"
proof
  assume "buildArchivePath now p \<noteq> None"
  then show "Clean p = Clean mountPath \<or> within_mount (Dir p)"
    using buildArchivePath_Some_within by blast
next
  assume h: "Clean p = Clean mountPath \<or> within_mount (Dir p)"
  show "buildArchivePath now p \<noteq> None"
  proof (cases "Clean p = Clean mountPath")
    case True
    then show ?thesis by (subst buildArchivePath.simps) simp
  next
    case False
    with h have "within_mount (Dir p)" by simp
    from within_mount_Dir_form [OF this] obtain es
      where "list_all proper es" "Dir p = abs_path (''persistentvolumes'' # es)" by blast
    with False buildArchivePath_abs_path [of es now] show ?thesis
      by (subst buildArchivePath.simps) simp
  qed
qed

section \<open>Termination of the two walks\<close>

text \<open>
  The first \<open>n\<close> paths of the walk to the parent: the path, its \<open>Dir\<close>, the \<open>Dir\<close> of
  that, and so on.
\<close>

definition parents :: "nat \<Rightarrow> string \<Rightarrow> string list" where
  "parents n pth = map (\<lambda>k. (Dir ^^ k) pth) [0..<n]"

lemma parents_Suc: "parents (Suc n) pth = pth # parents n (Dir pth)"
proof -
  have "[0..<Suc n] = 0 # map Suc [0..<n]"
    by (simp add: upt_conv_Cons map_Suc_upt del: upt_Suc)
  then show ?thesis
    by (simp add: parents_def funpow_swap1 comp_def del: upt_Suc)
qed

lemma last_split_sep: "last (split_sep p) = last_field p"
proof (cases "dir_prefix p = []")
  case True
  with dir_prefix_last_field [of p] last_field_no_sep [of p] show ?thesis
    by (simp add: split_sep_single)
next
  case False
  with dir_prefix_ends [of p] obtain b where b: "dir_prefix p = b @ [Separator]"
    by (metis append_butlast_last_id)
  with dir_prefix_last_field [of p] have "p = b @ Separator # last_field p" by simp
  then have "split_sep p = split_sep b @ [last_field p]"
    using split_sep_append [of b "last_field p"] last_field_no_sep [of p]
    by (simp add: split_sep_single)
  then show ?thesis by simp
qed

lemma not_within_Dir:
  assumes "''..'' \<notin> set (split_sep p)" and "\<not> within_mount p"
  shows "\<not> within_mount (Dir p)"
proof
  assume w: "within_mount (Dir p)"
  have rt: "p \<noteq> [] \<and> hd p = Separator"
  proof (rule ccontr)
    assume "\<not> ?thesis"
    then have "p = [] \<or> hd p \<noteq> Separator" by blast
    from Dir_relative [OF this] have "\<not> within_mount (Dir p)"
      by (intro not_within_relative) simp
    with w show False by simp
  qed
  define X where "X = clean_elems True (dir_prefix p)"
  have pX: "list_all proper X" by (simp add: X_def clean_elems_proper)
  from rt have "Dir p = abs_path X" by (simp add: Dir_abs X_def)
  with w pX obtain rest where X: "X = ''persistentvolumes'' # rest"
    by (cases X) (auto simp: within_mount_abs_path)
  have "last_field p \<noteq> ''..''"
    using assms(1) last_split_sep [of p] split_sep_nonempty [of p] by (metis last_in_set)
  then have "\<exists>rest'. clean_step True X (last_field p) = ''persistentvolumes'' # rest'"
    by (auto simp: clean_step_def X)
  then have "within_mount p"
    using rt clean_elems_last_field [of True p] by (simp add: within_mount_abs X_def)
  with assms(2) show False by simp
qed

lemma buildArchivePath_reaches:
  assumes r: "buildArchivePath now p = Some y"
  shows "\<exists>n. Clean ((Dir ^^ n) p) = Clean mountPath"
proof (rule buildArchivePath.raw_induct
    [OF _ r, where P = "\<lambda>now p y. \<exists>n. Clean ((Dir ^^ n) p) = Clean mountPath"])
  fix f :: "time \<Rightarrow> string \<Rightarrow> string option" and now p y
  assume ih: "\<And>n q z. f n q = Some z \<Longrightarrow> \<exists>n. Clean ((Dir ^^ n) q) = Clean mountPath"
    and eq: "(if Clean p = Clean mountPath
              then Some (archiveSubPath @ ''/'' @ Format_200601021504 now)
              else Option.bind (f now (Dir p)) (\<lambda>parent. Some (parent @ ''.'' @ Base p))) = Some y"
  show "\<exists>n. Clean ((Dir ^^ n) p) = Clean mountPath"
  proof (cases "Clean p = Clean mountPath")
    case True
    then have "Clean ((Dir ^^ 0) p) = Clean mountPath" by simp
    then show ?thesis by blast
  next
    case False
    with eq obtain r where "f now (Dir p) = Some r"
      by (auto simp: bind_eq_Some_conv)
    from ih [OF this] obtain n where "Clean ((Dir ^^ n) (Dir p)) = Clean mountPath" by blast
    then have "Clean ((Dir ^^ Suc n) p) = Clean mountPath" by (simp add: funpow_swap1)
    then show ?thesis by blast
  qed
qed

lemma buildArchivePath_reached:
  "Clean ((Dir ^^ n) p) = Clean mountPath \<Longrightarrow> buildArchivePath now p \<noteq> None"
proof (induction n arbitrary: p)
  case 0
  then show ?case by (subst buildArchivePath.simps) simp
next
  case (Suc n)
  from Suc.prems have "Clean ((Dir ^^ n) (Dir p)) = Clean mountPath" by (simp add: funpow_swap1)
  from Suc.IH [OF this] show ?case
    by (subst buildArchivePath.simps) auto
qed

text \<open>The calls that \<open>pruneEmptyParents\<close> makes.\<close>

lemma pruneEmptyParents_shape:
  assumes r: "pruneEmptyParents os tr pth = Some tr'"
  shows "\<exists>n. tr' = tr @ map Remove (parents n pth) \<and>
             (\<forall>k<n. Clean ((Dir ^^ k) pth) \<noteq> Clean mountPath) \<and>
             (\<forall>k. Suc k < n \<longrightarrow> os (tr @ map Remove (parents k pth)) (Remove ((Dir ^^ k) pth)) = None)"
proof (rule pruneEmptyParents.raw_induct
    [OF _ r, where P = "\<lambda>os tr pth tr'. \<exists>n. tr' = tr @ map Remove (parents n pth) \<and>
             (\<forall>k<n. Clean ((Dir ^^ k) pth) \<noteq> Clean mountPath) \<and>
             (\<forall>k. Suc k < n \<longrightarrow> os (tr @ map Remove (parents k pth)) (Remove ((Dir ^^ k) pth)) = None)"])
  fix f :: "os \<Rightarrow> os_call list \<Rightarrow> string \<Rightarrow> os_call list option" and os tr pth tr'
  assume ih: "\<And>os tr pth tr'. f os tr pth = Some tr' \<Longrightarrow>
      \<exists>n. tr' = tr @ map Remove (parents n pth) \<and>
             (\<forall>k<n. Clean ((Dir ^^ k) pth) \<noteq> Clean mountPath) \<and>
             (\<forall>k. Suc k < n \<longrightarrow> os (tr @ map Remove (parents k pth)) (Remove ((Dir ^^ k) pth)) = None)"
    and eq: "(if Clean pth = Clean mountPath then Some tr
              else case os tr (Remove pth) of
                     None \<Rightarrow> f os (tr @ [Remove pth]) (Dir pth)
                   | Some err \<Rightarrow> Some (tr @ [Remove pth])) = Some tr'"
  let ?Q = "\<lambda>n. tr' = tr @ map Remove (parents n pth) \<and>
             (\<forall>k<n. Clean ((Dir ^^ k) pth) \<noteq> Clean mountPath) \<and>
             (\<forall>k. Suc k < n \<longrightarrow> os (tr @ map Remove (parents k pth)) (Remove ((Dir ^^ k) pth)) = None)"
  show "\<exists>n. ?Q n"
  proof (cases "Clean pth = Clean mountPath")
    case True
    with eq have "?Q 0" by (simp add: parents_def)
    then show ?thesis by blast
  next
    case False
    show ?thesis
    proof (cases "os tr (Remove pth)")
      case (Some err)
      with False eq have "?Q 1" by (auto simp: parents_def)
      then show ?thesis by blast
    next
      case None
      with False eq have "f os (tr @ [Remove pth]) (Dir pth) = Some tr'" by simp
      from ih [OF this] obtain n where n:
        "tr' = (tr @ [Remove pth]) @ map Remove (parents n (Dir pth))"
        "\<forall>k<n. Clean ((Dir ^^ k) (Dir pth)) \<noteq> Clean mountPath"
        "\<forall>k. Suc k < n \<longrightarrow> os ((tr @ [Remove pth]) @ map Remove (parents k (Dir pth)))
            (Remove ((Dir ^^ k) (Dir pth))) = None"
        by blast
      have a: "tr' = tr @ map Remove (parents (Suc n) pth)"
        using n(1) by (simp add: parents_Suc)
      have b: "Clean ((Dir ^^ k) pth) \<noteq> Clean mountPath" if "k < Suc n" for k
        using that False n(2) by (cases k) (auto simp: funpow_swap1)
      have c: "os (tr @ map Remove (parents k pth)) (Remove ((Dir ^^ k) pth)) = None"
        if "Suc k < Suc n" for k
      proof (cases k)
        case 0
        with None show ?thesis by (simp add: parents_def)
      next
        case (Suc j)
        with that n(3) show ?thesis by (simp add: parents_Suc funpow_swap1)
      qed
      from a b c have "?Q (Suc n)" by blast
      then show ?thesis by blast
    qed
  qed
qed

lemma pruneEmptyParents_within_returns:
  assumes "within_mount pth"
  shows "\<exists>tr'. pruneEmptyParents os tr pth = Some tr'"
proof (cases "Clean pth = Clean mountPath")
  case True
  then show ?thesis by (subst pruneEmptyParents.simps) simp
next
  case False
  from within_mount_Dir [OF assms False] within_mount_Dir_form obtain es
    where "list_all proper es" "Dir pth = abs_path (''persistentvolumes'' # es)" by blast
  with False pruneEmptyParents_abs_path [of es os "tr @ [Remove pth]"] show ?thesis
    by (subst pruneEmptyParents.simps) (simp split: option.split)
qed

lemma within_mount_walk:
  assumes "within_mount pth" and "\<forall>k<n. Clean ((Dir ^^ k) pth) \<noteq> Clean mountPath"
  shows "k < n \<Longrightarrow> within_mount ((Dir ^^ k) pth)"
proof (induction k)
  case 0
  with assms(1) show ?case by simp
next
  case (Suc k)
  then have "within_mount ((Dir ^^ k) pth)" "Clean ((Dir ^^ k) pth) \<noteq> Clean mountPath"
    using assms(2) by auto
  from within_mount_Dir [OF this] show ?case by simp
qed

section \<open>The archive path\<close>

lemma utoa_digits: "set (utoa n) \<subseteq> set ''0123456789''"
proof (induction n rule: utoa.induct)
  case (1 n)
  have d: "''0123456789'' ! k \<in> set ''0123456789''" if "k < 10" for k
    using that nth_mem [of k "''0123456789''"] by simp
  show ?case
  proof (cases "n < 10")
    case True
    with d [of n] show ?thesis by (subst utoa.simps) simp
  next
    case False
    with 1 d [of "n mod 10"] show ?thesis by (subst utoa.simps) simp
  qed
qed

lemma utoa_nonempty: "utoa n \<noteq> []"
  by (subst utoa.simps) simp

lemma appendInt_digits: "set (appendInt x w) \<subseteq> set ''0123456789''"
  using utoa_digits [of x] by (auto simp: appendInt_def)

lemma appendInt_length: "w \<le> length (appendInt x w)"
  by (simp add: appendInt_def)

lemma Format_digits: "set (Format_200601021504 t) \<subseteq> set ''0123456789''"
  using appendInt_digits by (auto simp: Format_200601021504_def)

lemma Format_length: "12 \<le> length (Format_200601021504 t)"
  using appendInt_length [of 4 "Year t"] appendInt_length [of 2 "Month t"]
    appendInt_length [of 2 "Day t"] appendInt_length [of 2 "Hour t"]
    appendInt_length [of 2 "Minute t"]
  by (simp add: Format_200601021504_def)

lemma Format_Second: "Format_200601021504 (t \<lparr> Second := s \<rparr>) = Format_200601021504 t"
  by (simp add: Format_200601021504_def)

text \<open>The name of the archived directory is one path element.\<close>

lemma archive_name_proper:
  assumes "list_all proper segs"
  shows "proper (Format_200601021504 now @ concat (map ((#) (CHR ''.'')) segs))"
proof -
  let ?ts = "Format_200601021504 now"
  let ?n = "?ts @ concat (map ((#) (CHR ''.'')) segs)"
  have "Separator \<notin> set ?ts"
    using Format_digits [of now] by (auto simp: Separator_def)
  moreover have "Separator \<notin> set (concat (map ((#) (CHR ''.'')) segs))"
    using assms by (auto simp: list_all_iff proper_def Separator_def)
  ultimately have "Separator \<notin> set ?n" by simp
  moreover have "12 \<le> length ?n" using Format_length [of now] by simp
  then have "?n \<noteq> [] \<and> ?n \<noteq> ''.'' \<and> ?n \<noteq> ''..''"
    by (auto dest!: arg_cong [where f = length])
  ultimately show ?thesis by (simp add: proper_def)
qed

lemma Join_mount_archive:
  assumes "proper n"
  shows "Join [mountPath, archiveSubPath @ ''/'' @ n] = ''/persistentvolumes/_archived_/'' @ n"
proof -
  have j: "join_sep [mountPath, archiveSubPath @ ''/'' @ n] =
      [] @ Separator # ''persistentvolumes'' @ Separator # [] @ Separator # ''_archived_'' @ Separator # n"
    by (simp add: mountPath_def archiveSubPath_def Separator_def)
  from assms have "Separator \<notin> set n" by (simp add: proper_def)
  then have "split_sep (join_sep [mountPath, archiveSubPath @ ''/'' @ n]) =
      [[], ''persistentvolumes'', [], ''_archived_'', n]"
    unfolding j by (simp add: split_sep_append split_sep_single Separator_def)
  moreover have "proper ''_archived_''" by (simp add: proper_def Separator_def)
  ultimately have "clean_elems True (join_sep [mountPath, archiveSubPath @ ''/'' @ n]) =
      [''persistentvolumes'', ''_archived_'', n]"
    using assms proper_pv by (simp add: clean_elems_def clean_step_def proper_def)
  then have "Clean (join_sep [mountPath, archiveSubPath @ ''/'' @ n]) =
      ''/persistentvolumes/_archived_/'' @ n"
    by (subst Clean_abs) (simp_all add: mountPath_def abs_path_def Separator_def)
  then show ?thesis
    by (simp add: Join_def mountPath_def)
qed

lemma dropWhile_rev_last:
  "xs \<noteq> [] \<Longrightarrow> last xs \<noteq> c \<Longrightarrow> dropWhile (\<lambda>x. x = c) (rev xs) = rev xs"
  by (cases xs rule: rev_cases) auto

lemma Base_leaf:
  assumes "proper e"
  shows "Base (a @ Separator # e) = e"
proof -
  define p where "p = a @ Separator # e"
  from assms have e: "e \<noteq> []" "Separator \<notin> set e" by (simp_all add: proper_def)
  then have "last p \<noteq> Separator"
    unfolding p_def by (metis last_appendR last_ConsR last_in_set list.distinct(1))
  moreover have pn: "p \<noteq> []" by (simp add: p_def)
  ultimately have dw: "dropWhile (\<lambda>c. c = Separator) (rev p) = rev p"
    by (intro dropWhile_rev_last)
  have lf: "rev (takeWhile (\<lambda>c. c \<noteq> Separator) (rev p)) = e"
    using last_field_append [OF e(2), of a] by (simp add: last_field_def p_def)
  from lf e(1) have ne: "takeWhile (\<lambda>c. c \<noteq> Separator) (rev p) \<noteq> []" by auto
  have "Base p = e"
    by (simp add: Base_def Let_def dw lf ne pn)
  then show ?thesis by (simp add: p_def)
qed

lemma Dir_leaf:
  assumes "list_all proper (es @ [e])" and "Clean (a @ Separator # e) = abs_path (es @ [e])"
  shows "Dir (a @ Separator # e) = abs_path es"
proof -
  let ?p = "a @ Separator # e"
  from assms(1) have e: "proper e" by simp
  then have ns: "Separator \<notin> set e" by (simp add: proper_def)
  have rt: "?p \<noteq> [] \<and> hd ?p = Separator"
  proof (rule ccontr)
    assume "\<not> ?thesis"
    then have "?p = [] \<or> hd ?p \<noteq> Separator" by blast
    from Clean_relative [OF this] assms(2) show False by (simp add: abs_path_def)
  qed
  define X where "X = clean_elems True (dir_prefix ?p)"
  from rt assms(2) have "abs_path (clean_elems True ?p) = abs_path (es @ [e])"
    by (simp add: Clean_abs)
  from abs_path_inject [OF clean_elems_proper assms(1) this]
  have "es @ [e] = clean_step True X e"
    using clean_elems_last_field [of True ?p] last_field_append [OF ns, of a] by (simp add: X_def)
  also have "\<dots> = X @ [e]"
    using e by (simp add: clean_step_def proper_def)
  finally have "X = es" by simp
  with rt show ?thesis by (simp add: Dir_abs X_def)
qed

lemma buildArchivePath_leaf:
  assumes "list_all proper (es @ [e])"
    and "Clean (a @ Separator # e) = abs_path (''persistentvolumes'' # es @ [e])"
  shows "buildArchivePath now (a @ Separator # e) =
           Some (archiveSubPath @ ''/'' @ Format_200601021504 now @
                 concat (map ((#) (CHR ''.'')) (es @ [e])))"
proof -
  from assms(1) have pr: "list_all proper ((''persistentvolumes'' # es) @ [e])" and es: "list_all proper es"
    and e: "proper e"
    by (simp_all add: proper_pv)
  have ne: "Clean (a @ Separator # e) \<noteq> Clean mountPath"
    using abs_path_neq_mount [OF assms(1)] assms(2) pr by (simp add: Clean_abs_path)
  have d: "Dir (a @ Separator # e) = abs_path (''persistentvolumes'' # es)"
    using Dir_leaf [OF pr] assms(2) by simp
  show ?thesis
    using ne d Base_leaf [OF e, of a] buildArchivePath_abs_path [OF es, of now]
    by (subst buildArchivePath.simps) simp
qed

section \<open>The claims about the walks\<close>

lemma Format_ex_time: "Format_200601021504 ex_time = ''202405011030''"
  by (simp add: Format_200601021504_def appendInt_def ex_time_def utoa.simps)

lemma Clean_examples:
  "Clean ''/persistentvolumes/..'' = ''/''"
  "Clean ''/persistentvolumes/../x'' = ''/x''"
  "Clean ''/persistentvolumes/a/'' = ''/persistentvolumes/a''"
  "Clean ''/persistentvolumes/a'' = ''/persistentvolumes/a''"
  "Clean ''/persistentvolumes/'' = ''/persistentvolumes''"
  "Clean ''/persistentvolumes'' = ''/persistentvolumes''"
  "Clean ''/x'' = ''/x''"
  "Clean ''/'' = ''/''"
  by (simp_all add: Clean_def clean_elems_def clean_step_def Separator_def)

lemma Dir_examples:
  "Dir ''/persistentvolumes/..'' = ''/persistentvolumes''"
  "Dir ''/persistentvolumes/../x'' = ''/''"
  "Dir ''/persistentvolumes/a/'' = ''/persistentvolumes/a''"
  "Dir ''/persistentvolumes/a'' = ''/persistentvolumes''"
  "Dir ''/x'' = ''/''"
  "Dir ''/'' = ''/''"
  by (simp_all add: Dir_def Clean_def clean_elems_def clean_step_def Separator_def)

lemma Base_examples:
  "Base ''/persistentvolumes/..'' = ''..''"
  "Base ''/persistentvolumes/a/'' = ''a''"
  "Base ''/persistentvolumes/a'' = ''a''"
  by (simp_all add: Base_def Separator_def)

text \<open>
  Claim C9. \<open>buildArchivePath\<close> returns exactly when some number of steps to the parent
  (\<open>filepath.Dir\<close>) leads from the path to one whose cleaned form is the cleaned mount
  root. It returns for every path within the mount (the cleaned path is the mount root
  or below it). It does not return for a path outside the mount whose parent is outside
  the mount too; this is so for every rooted path outside the mount that has no \<open>..\<close>
  element.
\<close>

theorem buildArchivePath_termination:
  "(buildArchivePath now pth \<noteq> None \<longleftrightarrow> (\<exists>n. Clean ((Dir ^^ n) pth) = Clean mountPath)) \<and>
   (within_mount pth \<longrightarrow> buildArchivePath now pth \<noteq> None) \<and>
   (\<not> within_mount pth \<and> \<not> within_mount (Dir pth) \<longrightarrow> buildArchivePath now pth = None) \<and>
   (hd pth = Separator \<and> ''..'' \<notin> set (split_sep pth) \<and> \<not> within_mount pth \<longrightarrow>
      buildArchivePath now pth = None)"
proof (intro conjI impI)
  show "buildArchivePath now pth \<noteq> None \<longleftrightarrow> (\<exists>n. Clean ((Dir ^^ n) pth) = Clean mountPath)"
    using buildArchivePath_reaches buildArchivePath_reached by blast
next
  assume "within_mount pth"
  then show "buildArchivePath now pth \<noteq> None"
    using within_mount_Dir [of pth] buildArchivePath_returns_iff [of now pth] by blast
next
  assume "\<not> within_mount pth \<and> \<not> within_mount (Dir pth)"
  then show "buildArchivePath now pth = None"
    using buildArchivePath_returns_iff [of now pth] within_mount_eq [of pth] by blast
next
  assume "hd pth = Separator \<and> ''..'' \<notin> set (split_sep pth) \<and> \<not> within_mount pth"
  then show "buildArchivePath now pth = None"
    using buildArchivePath_returns_iff [of now pth] within_mount_eq [of pth] not_within_Dir [of pth]
    by blast
qed

theorem buildArchivePath_termination_witness:
  "buildArchivePath ex_time ''/persistentvolumes//ns1-claim1-pvc-abc'' \<noteq> None \<and>
   buildArchivePath ex_time ''/tmp/ns1'' = None"
proof -
  have w: "within_mount ''/persistentvolumes//ns1-claim1-pvc-abc''"
    by (simp add: within_mount_def Clean_def clean_elems_def clean_step_def Separator_def
        HasPrefix_def mountPath_def)
  have o: "hd ''/tmp/ns1'' = Separator \<and> ''..'' \<notin> set (split_sep ''/tmp/ns1'') \<and>
      \<not> within_mount ''/tmp/ns1''"
    by (simp add: within_mount_def Clean_def clean_elems_def clean_step_def Separator_def
        HasPrefix_def mountPath_def)
  from buildArchivePath_termination [of ex_time "''/persistentvolumes//ns1-claim1-pvc-abc''"] w
  have "buildArchivePath ex_time ''/persistentvolumes//ns1-claim1-pvc-abc'' \<noteq> None" by blast
  moreover from buildArchivePath_termination [of ex_time "''/tmp/ns1''"] o
  have "buildArchivePath ex_time ''/tmp/ns1'' = None" by blast
  ultimately show ?thesis by simp
qed

text \<open>
  The claim as it is written, that \<open>buildArchivePath\<close> returns for no rooted path outside the
  mount, fails: \<open>filepath.Dir\<close> drops a last element \<open>..\<close> without resolving it, so the
  parent of \<open>/persistentvolumes/..\<close> (a spelling of the root directory) is the mount root.
  Read by the text of the path instead, the claim fails at \<open>/persistentvolumes/../x\<close>, which
  begins with the mount root and for which \<open>buildArchivePath\<close> does not return.
\<close>

theorem buildArchivePath_outside_returns:
  "hd ''/persistentvolumes/..'' = Separator \<and> \<not> within_mount ''/persistentvolumes/..'' \<and>
   buildArchivePath ex_time ''/persistentvolumes/..'' = Some ''_archived_/202405011030...'' \<and>
   HasPrefix ''/persistentvolumes/../x'' mountPath \<and>
   buildArchivePath ex_time ''/persistentvolumes/../x'' = None"
proof -
  have 1: "\<not> within_mount ''/persistentvolumes/..''"
    by (simp add: within_mount_def Clean_examples HasPrefix_def mountPath_def Separator_def)
  have 2: "buildArchivePath ex_time ''/persistentvolumes'' = Some ''_archived_/202405011030''"
    by (subst buildArchivePath.simps)
      (simp add: Clean_examples mountPath_def archiveSubPath_def Format_ex_time)
  have 3: "buildArchivePath ex_time ''/persistentvolumes/..'' = Some ''_archived_/202405011030...''"
    by (subst buildArchivePath.simps)
      (simp add: Clean_examples Dir_examples Base_examples mountPath_def 2)
  have 4: "\<not> within_mount ''/persistentvolumes/../x''" "\<not> within_mount (Dir ''/persistentvolumes/../x'')"
    by (simp_all add: within_mount_def Clean_examples Dir_examples HasPrefix_def mountPath_def Separator_def)
  have 5: "buildArchivePath ex_time ''/persistentvolumes/../x'' = None"
    using buildArchivePath_returns_iff [of ex_time "''/persistentvolumes/../x''"] 4
      within_mount_eq [of "''/persistentvolumes/../x''"] by blast
  show ?thesis
    using 1 3 5 by (simp add: Separator_def HasPrefix_def mountPath_def)
qed

text \<open>
  Claim C7. Whenever \<open>pruneEmptyParents\<close> returns, the calls it has made are calls of
  \<open>os.Remove\<close> (which the operating system refuses on a directory that is not empty) on
  the path, its parent, the parent of that, and so on; every call but the last one
  succeeded, so the walk stops at the first removal that fails; and no call is on a path
  that cleans to the mount root. From a path within the mount the walk always ends and
  every path it calls \<open>os.Remove\<close> on is within the mount and not the mount root, so
  nothing above the mount root is touched. What the removals returned is not reported:
  after a successful \<open>os.RemoveAll\<close>, \<open>deleteAndPruneEmptyParents\<close> returns the nil error.
\<close>

theorem pruneEmptyParents_walk:
  "(\<forall>tr'. pruneEmptyParents os tr pth = Some tr' \<longrightarrow>
      (\<exists>n. tr' = tr @ map Remove (parents n pth) \<and>
           (\<forall>k<n. Clean ((Dir ^^ k) pth) \<noteq> Clean mountPath) \<and>
           (\<forall>k. Suc k < n \<longrightarrow>
              os (tr @ map Remove (parents k pth)) (Remove ((Dir ^^ k) pth)) = None))) \<and>
   (within_mount pth \<longrightarrow>
      (\<exists>n. pruneEmptyParents os tr pth = Some (tr @ map Remove (parents n pth)) \<and>
           (\<forall>k<n. within_mount ((Dir ^^ k) pth) \<and> Clean ((Dir ^^ k) pth) \<noteq> Clean mountPath))) \<and>
   (\<forall>tr'. os tr (RemoveAll pth) = None \<and>
          pruneEmptyParents os (tr @ [RemoveAll pth]) (Dir pth) = Some tr' \<longrightarrow>
      deleteAndPruneEmptyParents os tr pth = Some (Returns None, tr'))"
proof (intro conjI allI impI)
  fix tr'
  assume "pruneEmptyParents os tr pth = Some tr'"
  then show "\<exists>n. tr' = tr @ map Remove (parents n pth) \<and>
           (\<forall>k<n. Clean ((Dir ^^ k) pth) \<noteq> Clean mountPath) \<and>
           (\<forall>k. Suc k < n \<longrightarrow>
              os (tr @ map Remove (parents k pth)) (Remove ((Dir ^^ k) pth)) = None)"
    by (rule pruneEmptyParents_shape)
next
  assume w: "within_mount pth"
  from pruneEmptyParents_within_returns [OF w] obtain tr'
    where r: "pruneEmptyParents os tr pth = Some tr'" by blast
  from pruneEmptyParents_shape [OF r] obtain n where n:
    "tr' = tr @ map Remove (parents n pth)"
    "\<forall>k<n. Clean ((Dir ^^ k) pth) \<noteq> Clean mountPath" by blast
  have "\<forall>k<n. within_mount ((Dir ^^ k) pth)"
    using within_mount_walk [OF w n(2)] by blast
  with r n show "\<exists>n. pruneEmptyParents os tr pth = Some (tr @ map Remove (parents n pth)) \<and>
           (\<forall>k<n. within_mount ((Dir ^^ k) pth) \<and> Clean ((Dir ^^ k) pth) \<noteq> Clean mountPath)"
    by blast
next
  fix tr'
  assume "os tr (RemoveAll pth) = None \<and>
          pruneEmptyParents os (tr @ [RemoveAll pth]) (Dir pth) = Some tr'"
  then show "deleteAndPruneEmptyParents os tr pth = Some (Returns None, tr')"
    by (simp add: deleteAndPruneEmptyParents_def)
qed

lemma within_team_app: "within_mount ''/persistentvolumes/team/app''"
  by (simp add: within_mount_def Clean_def clean_elems_def clean_step_def Separator_def
      HasPrefix_def mountPath_def)

lemma prune_team_app:
  "pruneEmptyParents os_team_in_use [] ''/persistentvolumes/team/app'' =
     Some [Remove ''/persistentvolumes/team/app'', Remove ''/persistentvolumes/team'']"
proof -
  have c: "Clean ''/persistentvolumes/team/app'' = ''/persistentvolumes/team/app''"
    "Dir ''/persistentvolumes/team/app'' = ''/persistentvolumes/team''"
    "Clean ''/persistentvolumes/team'' = ''/persistentvolumes/team''"
    by (simp_all add: Dir_def Clean_def clean_elems_def clean_step_def Separator_def)
  have "pruneEmptyParents os_team_in_use [Remove ''/persistentvolumes/team/app'']
      ''/persistentvolumes/team'' =
     Some [Remove ''/persistentvolumes/team/app'', Remove ''/persistentvolumes/team'']"
    by (subst pruneEmptyParents.simps) (simp add: c Clean_mountPath os_team_in_use_def)
  then show ?thesis
    by (subst pruneEmptyParents.simps) (simp add: c Clean_mountPath os_team_in_use_def)
qed

theorem pruneEmptyParents_walk_witness:
  "within_mount ''/persistentvolumes/team/app'' \<and>
   (\<exists>n. [Remove ''/persistentvolumes/team/app'', Remove ''/persistentvolumes/team''] =
          map Remove (parents n ''/persistentvolumes/team/app'') \<and>
        (\<forall>k<n. within_mount ((Dir ^^ k) ''/persistentvolumes/team/app'')))"
proof -
  let ?p = "''/persistentvolumes/team/app''"
  from pruneEmptyParents_walk [of os_team_in_use "[]" ?p] within_team_app
  obtain n where n: "pruneEmptyParents os_team_in_use [] ?p = Some ([] @ map Remove (parents n ?p))"
    "\<forall>k<n. within_mount ((Dir ^^ k) ?p) \<and> Clean ((Dir ^^ k) ?p) \<noteq> Clean mountPath"
    by blast
  from n(1) prune_team_app
  have e: "[Remove ''/persistentvolumes/team/app'', Remove ''/persistentvolumes/team''] =
      map Remove (parents n ?p)" by simp
  from n(2) have w: "\<forall>k<n. within_mount ((Dir ^^ k) ?p)" by simp
  from e w have "\<exists>n. [Remove ''/persistentvolumes/team/app'', Remove ''/persistentvolumes/team''] =
          map Remove (parents n ?p) \<and> (\<forall>k<n. within_mount ((Dir ^^ k) ?p))"
    by (intro exI [of _ n] conjI)
  with within_team_app show ?thesis by (intro conjI)
qed

text \<open>
  The claim as it is written, for every starting path, fails from a path outside the
  mount: from \<open>/x\<close>, once \<open>/x\<close> is removed, \<open>os.Remove\<close> is called on the root directory, the
  parent of the mount root.
\<close>

theorem pruneEmptyParents_above_root:
  "pruneEmptyParents os_root_busy [] ''/x'' = Some [Remove ''/x'', Remove ''/''] \<and>
   Dir (Clean mountPath) = ''/'' \<and> \<not> within_mount ''/''"
proof -
  have "pruneEmptyParents os_root_busy [Remove ''/x''] ''/'' = Some [Remove ''/x'', Remove ''/'']"
    by (subst pruneEmptyParents.simps) (simp add: Clean_examples Clean_mountPath os_root_busy_def)
  then have "pruneEmptyParents os_root_busy [] ''/x'' = Some [Remove ''/x'', Remove ''/'']"
    by (subst pruneEmptyParents.simps)
      (simp add: Clean_examples Dir_examples Clean_mountPath os_root_busy_def)
  moreover have "Dir (Clean mountPath) = ''/''"
    by (simp add: Clean_mountPath) (simp add: Dir_def Clean_def clean_elems_def clean_step_def Separator_def)
  moreover have "\<not> within_mount ''/''"
    by (simp add: within_mount_def Clean_examples HasPrefix_def mountPath_def Separator_def)
  ultimately show ?thesis by simp
qed

lemma abs_path_concat: "abs_path (e # es) = Separator # e @ concat (map ((#) Separator) es)"
  by (induction es arbitrary: e) (simp_all add: abs_path_def)

lemma archive_trace:
  assumes "buildArchivePath now pth = Some a" and "archive os now tr pth = Some (r, tr')"
  shows "Rename pth (Join [mountPath, a]) \<in> set tr'"
proof -
  let ?dir = "Join [mountPath, archiveSubPath]"
  let ?tr2 = "if os_IsNotExist (os tr (Stat ?dir))
              then (tr @ [Stat ?dir]) @ [MkdirAll ?dir mode_0755] else tr @ [Stat ?dir]"
  let ?mv = "Rename pth (Join [mountPath, a])"
  show ?thesis
  proof (cases "os ?tr2 ?mv")
    case (Some err)
    with assms have "tr' = ?tr2 @ [?mv]"
      by (simp add: archive_def Let_def)
    then show ?thesis by simp
  next
    case None
    with assms obtain t where "pruneEmptyParents os (?tr2 @ [?mv]) (Dir pth) = Some t" "tr' = t"
      by (auto simp: archive_def Let_def split: option.splits)
    with pruneEmptyParents_shape [of os "?tr2 @ [?mv]" "Dir pth" tr'] show ?thesis
      by auto
  qed
qed

text \<open>
  Claim C2. Let the local path clean to the mount root followed by the elements \<open>segs\<close>
  (at least one), and let it end in a slash and the last of them. Then the archive path
  that \<open>Delete\<close> computes is the mount root, \<open>/_archived_/\<close>, the clock reading as year,
  month, day, hour and minute, and then every element of \<open>segs\<close> in order, each after a
  dot. The seconds of the clock do not matter, and the archive path is the target of the
  \<open>os.Rename\<close> among the calls that the archiving makes.
\<close>

theorem archive_path:
  assumes "segs \<noteq> []" and "list_all proper segs"
    and "Clean pth = Clean mountPath @ concat (map ((#) Separator) segs)"
    and "pth = a @ Separator # last segs"
  shows "map_option (\<lambda>a. Join [mountPath, a]) (buildArchivePath now pth) =
           Some (Clean mountPath @ ''/'' @ archiveSubPath @ ''/'' @ Format_200601021504 now @
                 concat (map ((#) (CHR ''.'')) segs)) \<and>
         buildArchivePath (now \<lparr> Second := s \<rparr>) pth = buildArchivePath now pth \<and>
         (\<forall>r tr'. archive os now tr pth = Some (r, tr') \<longrightarrow>
            Rename pth (Clean mountPath @ ''/'' @ archiveSubPath @ ''/'' @ Format_200601021504 now @
                 concat (map ((#) (CHR ''.'')) segs)) \<in> set tr')"
proof -
  from assms(1) obtain es e where segs: "segs = es @ [e]"
    by (metis append_butlast_last_id)
  let ?n = "\<lambda>t. Format_200601021504 t @ concat (map ((#) (CHR ''.'')) segs)"
  have c: "Clean (a @ Separator # e) = abs_path (''persistentvolumes'' # es @ [e])"
    using assms(3,4) by (simp add: segs abs_path_concat Clean_mountPath Separator_def)
  have b: "buildArchivePath t pth = Some (archiveSubPath @ ''/'' @ ?n t)" for t
    using buildArchivePath_leaf [of es e a t] assms(2,4) c by (simp add: segs)
  have j: "Join [mountPath, archiveSubPath @ ''/'' @ ?n t] =
      Clean mountPath @ ''/'' @ archiveSubPath @ ''/'' @ ?n t" for t
    using Join_mount_archive [OF archive_name_proper [OF assms(2), of t]]
    by (simp add: Clean_mountPath archiveSubPath_def)
  have 1: "map_option (\<lambda>a. Join [mountPath, a]) (buildArchivePath now pth) =
      Some (Clean mountPath @ ''/'' @ archiveSubPath @ ''/'' @ ?n now)"
    using j [of now] by (simp add: b)
  have 2: "buildArchivePath (now \<lparr> Second := s \<rparr>) pth = buildArchivePath now pth"
    by (simp add: b Format_Second)
  have 3: "Rename pth (Clean mountPath @ ''/'' @ archiveSubPath @ ''/'' @ ?n now) \<in> set tr'"
    if "archive os now tr pth = Some (r, tr')" for r tr'
    using archive_trace [OF b that] j [of now] by simp
  from 1 2 3 show ?thesis by blast
qed

theorem archive_path_witness:
  "map_option (\<lambda>a. Join [mountPath, a])
     (buildArchivePath ex_time ''/persistentvolumes//ns1-claim1-pvc-abc'') =
   Some ''/persistentvolumes/_archived_/202405011030.ns1-claim1-pvc-abc''"
proof -
  have p: "list_all proper [''ns1-claim1-pvc-abc'']"
    by (simp add: proper_def Separator_def)
  have c: "Clean ''/persistentvolumes//ns1-claim1-pvc-abc'' =
      Clean mountPath @ concat (map ((#) Separator) [''ns1-claim1-pvc-abc''])"
    by (simp add: Clean_mountPath) (simp add: Clean_def clean_elems_def clean_step_def Separator_def)
  have e: "''/persistentvolumes//ns1-claim1-pvc-abc'' =
      ''/persistentvolumes/'' @ Separator # last [''ns1-claim1-pvc-abc'']"
    by (simp add: Separator_def)
  from archive_path [OF _ p c e, of ex_time 0 os_ok "[]"] show ?thesis
    by (simp add: Clean_mountPath archiveSubPath_def Format_ex_time)
qed

text \<open>
  The claim as it is written, for every local path strictly under the mount root, fails
  for a path that ends in a slash: \<open>filepath.Base\<close> ignores the slash and \<open>filepath.Dir\<close>
  only removes it, so the last element is written twice.
\<close>

theorem archive_path_trailing_slash:
  "within_mount ''/persistentvolumes/a/'' \<and> Clean ''/persistentvolumes/a/'' \<noteq> Clean mountPath \<and>
   map_option (\<lambda>a. Join [mountPath, a]) (buildArchivePath ex_time ''/persistentvolumes/a/'') =
     Some ''/persistentvolumes/_archived_/202405011030.a.a''"
proof -
  have 1: "buildArchivePath ex_time ''/persistentvolumes'' = Some ''_archived_/202405011030''"
    by (subst buildArchivePath.simps)
      (simp add: Clean_examples mountPath_def archiveSubPath_def Format_ex_time)
  have 2: "buildArchivePath ex_time ''/persistentvolumes/a'' = Some ''_archived_/202405011030.a''"
    by (subst buildArchivePath.simps)
      (simp add: Clean_examples Dir_examples Base_examples mountPath_def 1)
  have 3: "buildArchivePath ex_time ''/persistentvolumes/a/'' = Some ''_archived_/202405011030.a.a''"
    by (subst buildArchivePath.simps)
      (simp add: Clean_examples Dir_examples Base_examples mountPath_def 2)
  have 4: "Join [mountPath, ''_archived_/202405011030.a.a''] =
      ''/persistentvolumes/_archived_/202405011030.a.a''"
    by (simp add: Join_def mountPath_def Clean_def clean_elems_def clean_step_def Separator_def)
  have 5: "within_mount ''/persistentvolumes/a/''"
    by (simp add: within_mount_def Clean_examples HasPrefix_def mountPath_def Separator_def)
  show ?thesis
    using 3 4 5 by (simp add: Clean_examples mountPath_def)
qed

section \<open>The templater against its specification\<close>

text \<open>
  What the specification says of the templater, to compare \<open>stringParser\<close> with: a
  template is a sequence of literal pieces and placeholders; a placeholder is written
  \<^verbatim>\<open>${.PVC.\<close>, its body and a closing brace; the body \<^verbatim>\<open>labels.\<close>\<open>k\<close> stands for the label
  \<open>k\<close>, \<^verbatim>\<open>annotations.\<close>\<open>k\<close> for the annotation \<open>k\<close>, any other body for the plain field of
  that name, and what is absent stands for the empty string. Rendering puts the value of
  every placeholder in its place and leaves the literal pieces as they are.
\<close>

datatype token = Lit string | Ph string

fun token_text :: "token \<Rightarrow> string" where
  "token_text (Lit l) = l"
| "token_text (Ph b) = ''${.PVC.'' @ b @ ''}''"

definition template_text :: "token list \<Rightarrow> string" where
  "template_text toks = concat (map token_text toks)"

definition placeholder_value :: "pvcMetadata \<Rightarrow> string \<Rightarrow> string" where
  "placeholder_value meta b =
     (if HasPrefix b ''labels.'' then lookup (labels meta) (drop 7 b)
      else if HasPrefix b ''annotations.'' then lookup (annotations meta) (drop 12 b)
      else lookup (data meta) b)"

fun token_value :: "pvcMetadata \<Rightarrow> token \<Rightarrow> string" where
  "token_value meta (Lit l) = l"
| "token_value meta (Ph b) = placeholder_value meta b"

definition clean_body :: "string \<Rightarrow> bool" where
  "clean_body b \<longleftrightarrow> CHR ''$'' \<notin> set b \<and> CHR ''}'' \<notin> set b \<and> CHR 0x0A \<notin> set b"

definition clean_tokens :: "token list \<Rightarrow> bool" where
  "clean_tokens toks \<longleftrightarrow>
     (\<forall>l. Lit l \<in> set toks \<longrightarrow> CHR ''$'' \<notin> set l) \<and> (\<forall>b. Ph b \<in> set toks \<longrightarrow> clean_body b)"

text \<open>
  A body that the pattern recognises holds no closing brace and no newline. A template is
  clean when, moreover, the dollar sign occurs in it only as the first character of a
  placeholder.
\<close>

lemma match_at_placeholder:
  assumes "clean_body b"
  shows "match_at (token_text (Ph b) @ rest) = Some (token_text (Ph b) # b # match_groups b)"
proof -
  have tw: "takeWhile (\<lambda>c. c \<noteq> CHR ''}'' \<and> c \<noteq> CHR 0x0A) (b @ CHR ''}'' # rest) = b"
    using assms by (auto simp: clean_body_def takeWhile_tail)
  show ?thesis
    by (simp add: match_at_def HasPrefix_def Let_def tw)
qed

lemma match_at_no_dollar: "s = [] \<or> hd s \<noteq> CHR ''$'' \<Longrightarrow> match_at s = None"
  by (cases s) (auto simp: match_at_def HasPrefix_def)

lemma FindAll_literal:
  "CHR ''$'' \<notin> set l \<Longrightarrow> FindAllStringSubmatch (l @ rest) = FindAllStringSubmatch rest"
proof (induction l)
  case Nil
  then show ?case by simp
next
  case (Cons c l)
  then have "match_at (c # l @ rest) = None" by (intro match_at_no_dollar) auto
  with Cons show ?case
    by (subst FindAllStringSubmatch.simps) simp
qed

lemma FindAll_placeholder:
  assumes "clean_body b"
  shows "FindAllStringSubmatch (token_text (Ph b) @ rest) =
           (token_text (Ph b) # b # match_groups b) # FindAllStringSubmatch rest"
  using match_at_placeholder [OF assms, of rest]
  by (subst FindAllStringSubmatch.simps) simp

text \<open>The bodies of the placeholders of a template, in order.\<close>

fun bodies :: "token list \<Rightarrow> string list" where
  "bodies [] = []"
| "bodies (Lit l # toks) = bodies toks"
| "bodies (Ph b # toks) = b # bodies toks"

lemma FindAll_empty: "FindAllStringSubmatch [] = []"
  by (subst FindAllStringSubmatch.simps) simp

lemma FindAll_template:
  "clean_tokens toks \<Longrightarrow>
     FindAllStringSubmatch (template_text toks) =
       map (\<lambda>b. token_text (Ph b) # b # match_groups b) (bodies toks)"
proof (induction toks rule: bodies.induct)
  case 1
  then show ?case by (simp add: template_text_def FindAll_empty)
next
  case (2 l toks)
  then have "clean_tokens toks" "CHR ''$'' \<notin> set l" by (auto simp: clean_tokens_def)
  with 2 show ?case
    using FindAll_literal [of l "template_text toks"] by (simp add: template_text_def)
next
  case (3 b toks)
  then have "clean_tokens toks" "clean_body b" by (auto simp: clean_tokens_def)
  with 3 show ?case
    using FindAll_placeholder [of b "template_text toks"] by (simp add: template_text_def)
qed

lemma substitute_placeholder:
  "substitute meta str (token_text (Ph b) # b # match_groups b) =
     ReplaceAll str (token_text (Ph b)) (placeholder_value meta b)"
  by (simp add: substitute_def match_groups_def placeholder_value_def)

lemma ReplaceAll_literal:
  assumes "old \<noteq> []" and "hd old \<notin> set l"
  shows "ReplaceAll (l @ rest) old new = l @ ReplaceAll rest old new"
  using assms(2)
proof (induction l)
  case Nil
  then show ?case by simp
next
  case (Cons c l)
  from assms(1) Cons.prems have "\<not> HasPrefix (c # l @ rest) old"
    by (cases old) (auto simp: HasPrefix_iff)
  with Cons assms(1) show ?case
    by (subst ReplaceAll.simps) simp
qed

lemma first_char_unique:
  assumes "c \<notin> set a" and "c \<notin> set b" and "a @ c # x = b @ c # y"
  shows "a = b"
proof -
  have "takeWhile (\<lambda>d. d \<noteq> c) (a @ c # x) = a"
    using assms(1) by (auto simp: takeWhile_tail)
  moreover have "takeWhile (\<lambda>d. d \<noteq> c) (b @ c # y) = b"
    using assms(2) by (auto simp: takeWhile_tail)
  ultimately show ?thesis using assms(3) by simp
qed

lemma ReplaceAll_placeholder:
  assumes "clean_body b" and "clean_body b'"
  shows "ReplaceAll (token_text (Ph b') @ rest) (token_text (Ph b)) v =
           (if b' = b then v else token_text (Ph b')) @ ReplaceAll rest (token_text (Ph b)) v"
proof (cases "b' = b")
  case True
  then show ?thesis
    by (subst ReplaceAll.simps) (simp add: HasPrefix_def)
next
  case False
  have np: "\<not> HasPrefix (token_text (Ph b') @ rest) (token_text (Ph b))"
  proof
    assume "HasPrefix (token_text (Ph b') @ rest) (token_text (Ph b))"
    then obtain x where "b' @ CHR ''}'' # rest = b @ CHR ''}'' # x"
      by (auto simp: HasPrefix_iff)
    from first_char_unique [OF _ _ this] assms have "b' = b" by (simp add: clean_body_def)
    with False show False by simp
  qed
  have tl: "CHR ''$'' \<notin> set (''{.PVC.'' @ b' @ ''}'')"
    using assms(2) by (simp add: clean_body_def)
  have "ReplaceAll (token_text (Ph b') @ rest) (token_text (Ph b)) v =
      CHR ''$'' # ReplaceAll ((''{.PVC.'' @ b' @ ''}'') @ rest) (token_text (Ph b)) v"
    using np by (subst ReplaceAll.simps) simp
  also have "\<dots> = CHR ''$'' # (''{.PVC.'' @ b' @ ''}'') @ ReplaceAll rest (token_text (Ph b)) v"
    using tl by (subst ReplaceAll_literal) simp_all
  finally show ?thesis using False by simp
qed

lemma ReplaceAll_empty: "old \<noteq> [] \<Longrightarrow> ReplaceAll [] old new = []"
  by (subst ReplaceAll.simps) simp

lemma ReplaceAll_template:
  assumes "clean_body b"
  shows "clean_tokens toks \<Longrightarrow>
     ReplaceAll (template_text toks) (token_text (Ph b)) v =
       template_text (map (\<lambda>t. if t = Ph b then Lit v else t) toks)"
proof (induction toks)
  case Nil
  then show ?case by (simp add: template_text_def ReplaceAll_empty)
next
  case (Cons t toks)
  then have ih: "ReplaceAll (template_text toks) (token_text (Ph b)) v =
       template_text (map (\<lambda>t. if t = Ph b then Lit v else t) toks)"
    by (simp add: clean_tokens_def)
  show ?case
  proof (cases t)
    case (Lit l)
    with Cons.prems have "CHR ''$'' \<notin> set l" by (simp add: clean_tokens_def)
    then have "ReplaceAll (l @ template_text toks) (token_text (Ph b)) v =
        l @ ReplaceAll (template_text toks) (token_text (Ph b)) v"
      by (subst ReplaceAll_literal) simp_all
    with ih Lit show ?thesis by (simp add: template_text_def)
  next
    case (Ph b')
    with Cons.prems have "clean_body b'" by (simp add: clean_tokens_def)
    from ReplaceAll_placeholder [OF assms this, of "template_text toks" v] ih Ph
    show ?thesis by (simp add: template_text_def)
  qed
qed

text \<open>
  A token after the placeholders with a body in \<open>B\<close> have been replaced: such a
  placeholder has become the literal piece of its value.
\<close>

definition replaced :: "pvcMetadata \<Rightarrow> string set \<Rightarrow> token \<Rightarrow> token" where
  "replaced meta B t =
     (case t of Lit l \<Rightarrow> Lit l
      | Ph b \<Rightarrow> if b \<in> B then Lit (placeholder_value meta b) else Ph b)"

lemma foldl_substitute:
  assumes "\<forall>b \<in> set bs. clean_body b \<and> CHR ''$'' \<notin> set (placeholder_value meta b)"
  shows "clean_tokens toks \<Longrightarrow>
     foldl (substitute meta) (template_text toks)
         (map (\<lambda>b. token_text (Ph b) # b # match_groups b) bs) =
       template_text (map (replaced meta (set bs)) toks)"
  using assms
proof (induction bs arbitrary: toks)
  case Nil
  have "map (replaced meta {}) toks = toks"
    by (induction toks) (auto simp: replaced_def split: token.splits)
  then show ?case by simp
next
  case (Cons b bs)
  let ?v = "placeholder_value meta b"
  let ?toks1 = "map (\<lambda>t. if t = Ph b then Lit ?v else t) toks"
  from Cons.prems have b: "clean_body b" "CHR ''$'' \<notin> set ?v" by simp_all
  with Cons.prems(1) have c1: "clean_tokens ?toks1"
    by (auto simp: clean_tokens_def)
  have step: "substitute meta (template_text toks) (token_text (Ph b) # b # match_groups b) =
      template_text ?toks1"
    by (subst substitute_placeholder) (rule ReplaceAll_template [OF b(1) Cons.prems(1)])
  have m: "map (replaced meta (set bs)) ?toks1 = map (replaced meta (set (b # bs))) toks"
    by (induction toks) (auto simp: replaced_def split: token.splits)
  let ?g = "\<lambda>b. token_text (Ph b) # b # match_groups b"
  have "foldl (substitute meta) (template_text toks) (map ?g (b # bs)) =
      foldl (substitute meta) (substitute meta (template_text toks) (?g b)) (map ?g bs)"
    by simp
  also have "\<dots> = foldl (substitute meta) (template_text ?toks1) (map ?g bs)"
    by (simp only: step)
  also have "\<dots> = template_text (map (replaced meta (set bs)) ?toks1)"
    by (rule Cons.IH [OF c1]) (use Cons.prems(2) in simp)
  also have "\<dots> = template_text (map (replaced meta (set (b # bs))) toks)"
    by (simp only: m)
  finally show ?case .
qed

lemma bodies_set: "Ph b \<in> set toks \<longleftrightarrow> b \<in> set (bodies toks)"
  by (induction toks rule: bodies.induct) auto

lemma replaced_all:
  "template_text (map (replaced meta (set (bodies toks))) toks) = concat (map (token_value meta) toks)"
proof -
  have "token_text (replaced meta (set (bodies toks)) t) = token_value meta t" if "t \<in> set toks" for t
  proof (cases t)
    case (Lit l)
    then show ?thesis by (simp add: replaced_def)
  next
    case (Ph b)
    with that have "b \<in> set (bodies toks)" by (simp add: bodies_set)
    with Ph show ?thesis by (simp add: replaced_def)
  qed
  then show ?thesis
    by (simp add: template_text_def cong: map_cong)
qed

lemma stringParser_template:
  assumes "clean_tokens toks"
    and "\<forall>b. Ph b \<in> set toks \<longrightarrow> CHR ''$'' \<notin> set (placeholder_value meta b)"
  shows "stringParser meta (template_text toks) = concat (map (token_value meta) toks)"
proof -
  have "\<forall>b \<in> set (bodies toks). clean_body b \<and> CHR ''$'' \<notin> set (placeholder_value meta b)"
    using assms bodies_set [of _ toks] by (auto simp: clean_tokens_def)
  from foldl_substitute [OF this assms(1)] show ?thesis
    by (simp add: stringParser_def FindAll_template [OF assms(1)] replaced_all)
qed

text \<open>
  Claim C5. On a clean template, when no value that is put in holds a dollar sign,
  \<open>stringParser\<close> returns the rendering: every occurrence of every placeholder is replaced
  by its value, a label for \<^verbatim>\<open>labels.\<close>\<open>k\<close>, an annotation for \<^verbatim>\<open>annotations.\<close>\<open>k\<close>, the
  plain field otherwise, and the empty string, not an error, for a key that is absent.
\<close>

theorem stringParser_substitutes:
  "(clean_tokens toks \<and> (\<forall>b. Ph b \<in> set toks \<longrightarrow> CHR ''$'' \<notin> set (placeholder_value meta b)) \<longrightarrow>
      stringParser meta (template_text toks) = concat (map (token_value meta) toks)) \<and>
   placeholder_value meta (''labels.'' @ k) = lookup (labels meta) k \<and>
   placeholder_value meta (''annotations.'' @ k) = lookup (annotations meta) k \<and>
   (\<not> HasPrefix b ''labels.'' \<and> \<not> HasPrefix b ''annotations.'' \<longrightarrow>
      placeholder_value meta b = lookup (data meta) b) \<and>
   (m k = None \<longrightarrow> lookup m k = [])"
  using stringParser_template [of toks meta]
  by (simp add: placeholder_value_def HasPrefix_def lookup_def)

theorem stringParser_substitutes_witness:
  "stringParser ex_meta ''${.PVC.labels.team}/${.PVC.name}/${.PVC.labels.tier}${.PVC.zone}'' =
     ''infra/claim1/''"
proof -
  let ?toks = "[Ph ''labels.team'', Lit ''/'', Ph ''name'', Lit ''/'', Ph ''labels.tier'', Ph ''zone'']"
  have c: "clean_tokens ?toks"
    by (simp add: clean_tokens_def clean_body_def)
  have v: "\<forall>b. Ph b \<in> set ?toks \<longrightarrow> CHR ''$'' \<notin> set (placeholder_value ex_meta b)"
    by (auto simp: placeholder_value_def HasPrefix_def lookup_def ex_meta_def)
  from stringParser_substitutes [of ?toks ex_meta] c v
  have "stringParser ex_meta (template_text ?toks) = concat (map (token_value ex_meta) ?toks)"
    by blast
  then show ?thesis
    by (simp add: template_text_def placeholder_value_def HasPrefix_def lookup_def ex_meta_def)
qed

text \<open>
  The claim as it is written, for every template and all metadata, fails:
  \<open>stringParser\<close> replaces one match after the other, each with \<open>strings.ReplaceAll\<close> on
  the string as it then is, so the value of an annotation that is itself written like a
  later placeholder of the template is replaced again.
\<close>

theorem stringParser_substitutes_twice:
  "stringParser ex_meta ''${.PVC.annotations.note}/${.PVC.name}'' = ''claim1/claim1'' \<and>
   template_text [Ph ''annotations.note'', Lit ''/'', Ph ''name''] =
     ''${.PVC.annotations.note}/${.PVC.name}'' \<and>
   concat (map (token_value ex_meta) [Ph ''annotations.note'', Lit ''/'', Ph ''name'']) =
     ''${.PVC.name}/claim1''"
proof -
  let ?t0 = "[Ph ''annotations.note'', Lit ''/'', Ph ''name'']"
  let ?t1 = "[Ph ''name'', Lit ''/'', Ph ''name'']"
  have c0: "clean_tokens ?t0" and c1: "clean_tokens ?t1"
    by (simp_all add: clean_tokens_def clean_body_def)
  have b: "clean_body ''annotations.note''" "clean_body ''name''"
    by (simp_all add: clean_body_def)
  have f: "FindAllStringSubmatch (template_text ?t0) =
      [token_text (Ph ''annotations.note'') # ''annotations.note'' # match_groups ''annotations.note'',
       token_text (Ph ''name'') # ''name'' # match_groups ''name'']"
    by (simp add: FindAll_template [OF c0])
  have v: "placeholder_value ex_meta ''annotations.note'' = ''${.PVC.name}''"
    "placeholder_value ex_meta ''name'' = ''claim1''"
    by (simp_all add: placeholder_value_def HasPrefix_def lookup_def ex_meta_def)
  have s1: "substitute ex_meta (template_text ?t0)
      (token_text (Ph ''annotations.note'') # ''annotations.note'' # match_groups ''annotations.note'') =
      template_text ?t1"
    by (subst substitute_placeholder, subst ReplaceAll_template [OF b(1) c0])
      (simp add: v template_text_def)
  have s2: "substitute ex_meta (template_text ?t1)
      (token_text (Ph ''name'') # ''name'' # match_groups ''name'') = ''claim1/claim1''"
    by (subst substitute_placeholder, subst ReplaceAll_template [OF b(2) c1])
      (simp add: v template_text_def)
  have "stringParser ex_meta (template_text ?t0) = ''claim1/claim1''"
    unfolding stringParser_def f by (simp only: foldl.simps s1 s2)
  then show ?thesis
    by (simp add: template_text_def v)
qed

section \<open>The directory that Provision creates\<close>

lemma Join_mount_proper:
  assumes "proper e"
  shows "Join [mountPath, e] = mountPath @ e"
proof -
  have j: "join_sep [mountPath, e] =
      [] @ Separator # ''persistentvolumes'' @ Separator # [] @ Separator # e"
    by (simp add: mountPath_def Separator_def)
  from assms have "Separator \<notin> set e" by (simp add: proper_def)
  then have "split_sep (join_sep [mountPath, e]) = [[], ''persistentvolumes'', [], e]"
    unfolding j by (simp add: split_sep_append split_sep_single Separator_def)
  then have "clean_elems True (join_sep [mountPath, e]) = [''persistentvolumes'', e]"
    using assms proper_pv by (simp add: clean_elems_def clean_step_def proper_def)
  then have "Clean (join_sep [mountPath, e]) = mountPath @ e"
    by (subst Clean_abs) (simp_all add: mountPath_def abs_path_def Separator_def)
  then show ?thesis
    by (simp add: Join_def mountPath_def)
qed

lemma pvName_proper: "Separator \<notin> set (pvName options) \<Longrightarrow> proper (pvName options)"
proof -
  assume "Separator \<notin> set (pvName options)"
  moreover have d: "CHR ''-'' \<in> set (pvName options)" by (simp add: pvName_def)
  then have "pvName options \<noteq> [] \<and> pvName options \<noteq> ''.'' \<and> pvName options \<noteq> ''..''"
    by auto
  ultimately show ?thesis by (simp add: proper_def)
qed

lemma Provision_first_call:
  "Selector (PVC options) = None \<Longrightarrow>
     \<exists>rest. snd (Provision p os tr options) =
            tr @ MkdirAll (snd (provisionPaths p options)) mode_0o777 # rest"
  by (cases "provisionPaths p options")
    (auto simp: Provision_def Let_def split: option.splits)

text \<open>
  Claim C4. The name of the directory is namespace, name and generated name joined by
  dashes. Without a pattern in the class the directory is that name under the export
  root and under the mount root; with a pattern whose rendering is not empty it is the
  rendering; with a pattern whose rendering is empty it is the default name again. The
  default name, when it holds no slash, is a directory below the mount root and not the
  mount root. The directory under the mount root is the one that \<open>Provision\<close> creates
  first of all.
\<close>

theorem Provision_directory:
  "pvName options = Namespace (PVC options) @ ''-'' @ Name (PVC options) @ ''-'' @ PVName options \<and>
   (Parameters (StorageClass options) ''pathPattern'' = None \<longrightarrow>
      provisionPaths p options = (Join [path p, pvName options], Join [mountPath, pvName options])) \<and>
   (\<forall>pat. Parameters (StorageClass options) ''pathPattern'' = Some pat \<and>
          stringParser (metadata options) pat \<noteq> [] \<longrightarrow>
      provisionPaths p options = (Join [path p, stringParser (metadata options) pat],
                                  Join [mountPath, stringParser (metadata options) pat])) \<and>
   (\<forall>pat. Parameters (StorageClass options) ''pathPattern'' = Some pat \<and>
          stringParser (metadata options) pat = [] \<longrightarrow>
      provisionPaths p options = (Join [path p, pvName options], Join [mountPath, pvName options])) \<and>
   (Separator \<notin> set (pvName options) \<longrightarrow>
      Join [mountPath, pvName options] = mountPath @ pvName options \<and>
      Join [mountPath, pvName options] \<noteq> Clean mountPath) \<and>
   (Selector (PVC options) = None \<longrightarrow>
      (\<exists>rest. snd (Provision p os tr options) =
              tr @ MkdirAll (snd (provisionPaths p options)) mode_0o777 # rest))"
proof -
  have 1: "pvName options =
      Namespace (PVC options) @ ''-'' @ Name (PVC options) @ ''-'' @ PVName options"
    by (simp add: pvName_def)
  have 2: "Parameters (StorageClass options) ''pathPattern'' = None \<longrightarrow>
      provisionPaths p options = (Join [path p, pvName options], Join [mountPath, pvName options])"
    by (simp add: provisionPaths_def)
  have 3: "\<forall>pat. Parameters (StorageClass options) ''pathPattern'' = Some pat \<and>
          stringParser (metadata options) pat \<noteq> [] \<longrightarrow>
      provisionPaths p options = (Join [path p, stringParser (metadata options) pat],
                                  Join [mountPath, stringParser (metadata options) pat])"
    by (simp add: provisionPaths_def Let_def)
  have 4: "\<forall>pat. Parameters (StorageClass options) ''pathPattern'' = Some pat \<and>
          stringParser (metadata options) pat = [] \<longrightarrow>
      provisionPaths p options = (Join [path p, pvName options], Join [mountPath, pvName options])"
    by (simp add: provisionPaths_def)
  have 5: "Separator \<notin> set (pvName options) \<longrightarrow>
      Join [mountPath, pvName options] = mountPath @ pvName options \<and>
      Join [mountPath, pvName options] \<noteq> Clean mountPath"
  proof
    assume "Separator \<notin> set (pvName options)"
    from pvName_proper [OF this] have pr: "proper (pvName options)" .
    then have "pvName options \<noteq> []" by (simp add: proper_def)
    then have "mountPath @ pvName options \<noteq> Clean mountPath"
      unfolding Clean_mountPath by (simp add: mountPath_def)
    with Join_mount_proper [OF pr]
    show "Join [mountPath, pvName options] = mountPath @ pvName options \<and>
      Join [mountPath, pvName options] \<noteq> Clean mountPath" by simp
  qed
  have 6: "Selector (PVC options) = None \<longrightarrow>
      (\<exists>rest. snd (Provision p os tr options) =
              tr @ MkdirAll (snd (provisionPaths p options)) mode_0o777 # rest)"
    using Provision_first_call [of options p os tr] by blast
  from 1 2 3 4 5 6 show ?thesis by (intro conjI)
qed

theorem Provision_directory_witness:
  "provisionPaths ex_provisioner ex_options =
     (''/export/ns1-claim1-pvc-abc'', ''/persistentvolumes/ns1-claim1-pvc-abc'') \<and>
   provisionPaths ex_provisioner (ex_options_pattern ''${.PVC.labels.team}/${.PVC.name}'') =
     (''/export/infra/claim1'', ''/persistentvolumes/infra/claim1'') \<and>
   provisionPaths ex_provisioner (ex_options_pattern ''${.PVC.labels.tier}'') =
     (''/export/ns1-claim1-pvc-abc'', ''/persistentvolumes/ns1-claim1-pvc-abc'')"
proof -
  let ?o1 = "ex_options_pattern ''${.PVC.labels.team}/${.PVC.name}''"
  let ?o2 = "ex_options_pattern ''${.PVC.labels.tier}''"
  have m: "metadata (ex_options_pattern pat) =
      \<lparr> data = [''name'' \<mapsto> ''claim1'', ''namespace'' \<mapsto> ''ns1'', ''pvname'' \<mapsto> ''pvc-abc''],
        labels = [''team'' \<mapsto> ''infra''], annotations = Map.empty \<rparr>" for pat
    by (simp add: metadata_def ex_options_pattern_def ex_options_def ex_claim_def)
  have n: "pvName ex_options = ''ns1-claim1-pvc-abc''"
    "pvName (ex_options_pattern pat) = ''ns1-claim1-pvc-abc''" for pat
    by (simp_all add: pvName_def ex_options_pattern_def ex_options_def ex_claim_def)
  have j: "Join [''/export'', ''ns1-claim1-pvc-abc''] = ''/export/ns1-claim1-pvc-abc''"
    "Join [mountPath, ''ns1-claim1-pvc-abc''] = ''/persistentvolumes/ns1-claim1-pvc-abc''"
    "Join [''/export'', ''infra/claim1''] = ''/export/infra/claim1''"
    "Join [mountPath, ''infra/claim1''] = ''/persistentvolumes/infra/claim1''"
    by (simp_all add: Join_def Clean_def clean_elems_def clean_step_def mountPath_def Separator_def)
  have r1: "stringParser (metadata ?o1) ''${.PVC.labels.team}/${.PVC.name}'' = ''infra/claim1''"
    using stringParser_template [of "[Ph ''labels.team'', Lit ''/'', Ph ''name'']" "metadata ?o1"]
    by (simp add: m clean_tokens_def clean_body_def template_text_def placeholder_value_def
        HasPrefix_def lookup_def)
  have r2: "stringParser (metadata ?o2) ''${.PVC.labels.tier}'' = []"
    using stringParser_template [of "[Ph ''labels.tier'']" "metadata ?o2"]
    by (simp add: m clean_tokens_def clean_body_def template_text_def placeholder_value_def
        HasPrefix_def lookup_def)
  have p: "Parameters (StorageClass ex_options) ''pathPattern'' = None"
    "Parameters (StorageClass (ex_options_pattern pat)) ''pathPattern'' = Some pat" for pat
    by (simp_all add: ex_options_pattern_def ex_options_def ex_class_def)
  have e: "path ex_provisioner = ''/export''" by (simp add: ex_provisioner_def)
  from Provision_directory [of ex_options ex_provisioner os_ok "[]"] p(1)
  have "provisionPaths ex_provisioner ex_options =
      (''/export/ns1-claim1-pvc-abc'', ''/persistentvolumes/ns1-claim1-pvc-abc'')"
    by (simp add: n j e)
  moreover from Provision_directory [of ?o1 ex_provisioner os_ok "[]"] p(2) r1
  have "provisionPaths ex_provisioner ?o1 = (''/export/infra/claim1'', ''/persistentvolumes/infra/claim1'')"
    by (simp add: j e)
  moreover from Provision_directory [of ?o2 ex_provisioner os_ok "[]"] p(2) r2
  have "provisionPaths ex_provisioner ?o2 =
      (''/export/ns1-claim1-pvc-abc'', ''/persistentvolumes/ns1-claim1-pvc-abc'')"
    by (simp add: n j e)
  ultimately show ?thesis by simp
qed

text \<open>
  The claim as it is written, that the directory created is never the mount root, fails:
  only the empty rendering is replaced by the default name. A pattern of two labels with
  a slash between them renders as a slash when the claim has neither label, and the
  directory created, and opened to everyone by \<open>os.Chmod\<close>, is the mount root.
\<close>

theorem Provision_mount_root:
  "stringParser (metadata (ex_options_pattern ''${.PVC.labels.tier}/${.PVC.labels.zone}''))
     ''${.PVC.labels.tier}/${.PVC.labels.zone}'' = ''/'' \<and>
   provisionPaths ex_provisioner (ex_options_pattern ''${.PVC.labels.tier}/${.PVC.labels.zone}'') =
     (''/export'', ''/persistentvolumes'') \<and>
   Clean mountPath = ''/persistentvolumes'' \<and>
   Provision ex_provisioner os_ok [] (ex_options_pattern ''${.PVC.labels.tier}/${.PVC.labels.zone}'') =
     (Returns (Some \<lparr> pv_Name = ''pvc-abc'', pv_Annotations = Map.empty, StorageClassName = [],
                       PersistentVolumeReclaimPolicy = ''Delete'',
                       pv_AccessModes = [''ReadWriteMany''], pv_MountOptions = [],
                       Capacity = [''storage'' \<mapsto> 1024],
                       NFS = Some \<lparr> Server = ''10.0.0.1'', Path = ''/export'', ReadOnly = False \<rparr> \<rparr>,
               ProvisioningFinished, None),
      [MkdirAll ''/persistentvolumes'' mode_0o777, Chmod ''/persistentvolumes'' mode_0o777])"
proof -
  let ?pat = "''${.PVC.labels.tier}/${.PVC.labels.zone}''"
  let ?o = "ex_options_pattern ?pat"
  have m: "metadata ?o =
      \<lparr> data = [''name'' \<mapsto> ''claim1'', ''namespace'' \<mapsto> ''ns1'', ''pvname'' \<mapsto> ''pvc-abc''],
        labels = [''team'' \<mapsto> ''infra''], annotations = Map.empty \<rparr>"
    by (simp add: metadata_def ex_options_pattern_def ex_options_def ex_claim_def)
  have r: "stringParser (metadata ?o) ?pat = ''/''"
    using stringParser_template [of "[Ph ''labels.tier'', Lit ''/'', Ph ''labels.zone'']" "metadata ?o"]
    by (simp add: m clean_tokens_def clean_body_def template_text_def placeholder_value_def
        HasPrefix_def lookup_def)
  have j: "Join [''/export'', ''/''] = ''/export''" "Join [mountPath, ''/''] = ''/persistentvolumes''"
    by (simp_all add: Join_def Clean_def clean_elems_def clean_step_def mountPath_def Separator_def)
  have pat: "Parameters (StorageClass ?o) ''pathPattern'' = Some ?pat"
    by (simp add: ex_options_pattern_def ex_options_def ex_class_def)
  have e: "path ex_provisioner = ''/export''" by (simp add: ex_provisioner_def)
  have pp: "provisionPaths ex_provisioner ?o = (''/export'', ''/persistentvolumes'')"
    by (simp add: provisionPaths_def pat r e j)
  have "Provision ex_provisioner os_ok [] ?o =
     (Returns (Some \<lparr> pv_Name = ''pvc-abc'', pv_Annotations = Map.empty, StorageClassName = [],
                       PersistentVolumeReclaimPolicy = ''Delete'',
                       pv_AccessModes = [''ReadWriteMany''], pv_MountOptions = [],
                       Capacity = [''storage'' \<mapsto> 1024],
                       NFS = Some \<lparr> Server = ''10.0.0.1'', Path = ''/export'', ReadOnly = False \<rparr> \<rparr>,
               ProvisioningFinished, None),
      [MkdirAll ''/persistentvolumes'' mode_0o777, Chmod ''/persistentvolumes'' mode_0o777])"
    by (simp add: Provision_def pp os_ok_def)
      (simp add: ex_options_pattern_def ex_options_def ex_class_def ex_claim_def ex_provisioner_def)
  with r pp show ?thesis by (simp add: Clean_mountPath)
qed

section \<open>Delete: the decision\<close>

lemma deleteAndPruneEmptyParents_calls:
  assumes "deleteAndPruneEmptyParents os tr pth = Some (r, t)"
  shows "\<exists>n. t = tr @ RemoveAll pth # map Remove (parents n (Dir pth))"
proof (cases "os tr (RemoveAll pth)")
  case (Some err)
  with assms have "t = tr @ RemoveAll pth # map Remove (parents 0 (Dir pth))"
    by (simp add: deleteAndPruneEmptyParents_def parents_def)
  then show ?thesis by blast
next
  case None
  with assms have "pruneEmptyParents os (tr @ [RemoveAll pth]) (Dir pth) = Some t"
    by (auto simp: deleteAndPruneEmptyParents_def split: option.splits)
  from pruneEmptyParents_shape [OF this] show ?thesis by auto
qed

lemma archive_calls:
  assumes "archive os now tr pth = Some (r, t)"
  shows "\<exists>a new. buildArchivePath now pth = Some a \<and> Rename pth (Join [mountPath, a]) \<in> set new \<and>
           t = tr @ new \<and> (\<forall>c \<in> set new. \<forall>f. c \<noteq> RemoveAll f)"
proof -
  from assms obtain a where a: "buildArchivePath now pth = Some a"
    by (auto simp: archive_def split: option.splits)
  let ?dir = "Join [mountPath, archiveSubPath]"
  let ?new2 = "if os_IsNotExist (os tr (Stat ?dir))
               then [Stat ?dir, MkdirAll ?dir mode_0755] else [Stat ?dir]"
  let ?mv = "Rename pth (Join [mountPath, a])"
  have tr2: "(if os_IsNotExist (os tr (Stat ?dir))
              then (tr @ [Stat ?dir]) @ [MkdirAll ?dir mode_0755] else tr @ [Stat ?dir]) = tr @ ?new2"
    by simp
  have "\<exists>n. t = tr @ ?new2 @ ?mv # map Remove (parents n (Dir pth))"
  proof (cases "os (tr @ ?new2) ?mv")
    case (Some err)
    with assms a have "t = tr @ ?new2 @ ?mv # map Remove (parents 0 (Dir pth))"
      by (simp add: archive_def Let_def tr2 parents_def)
    then show ?thesis by blast
  next
    case None
    with assms a have "pruneEmptyParents os ((tr @ ?new2) @ [?mv]) (Dir pth) = Some t"
      by (auto simp: archive_def Let_def tr2 split: option.splits)
    from pruneEmptyParents_shape [OF this] show ?thesis by auto
  qed
  then obtain n where "t = tr @ (?new2 @ ?mv # map Remove (parents n (Dir pth)))" by auto
  moreover have "?mv \<in> set (?new2 @ ?mv # map Remove (parents n (Dir pth)))" by simp
  moreover have "\<forall>c \<in> set (?new2 @ ?mv # map Remove (parents n (Dir pth))). \<forall>f. c \<noteq> RemoveAll f"
    by auto
  ultimately show ?thesis using a by blast
qed
























section \<open>The local path of a volume\<close>

lemma Delete_first_call:
  assumes "Delete p os now tr volume = Some (r, t)" and "NFS volume = Some nfs"
  shows "\<exists>rest. t = tr @ Stat (localPath p (Path nfs)) # rest"
proof -
  let ?old = "localPath p (Path nfs)"
  let ?tr = "tr @ [Stat ?old]"
  have d: "\<exists>rest. t = tr @ Stat ?old # rest"
    if "deleteAndPruneEmptyParents os ?tr ?old = Some (r, t)"
    using deleteAndPruneEmptyParents_calls [OF that] by auto
  have a: "\<exists>rest. t = tr @ Stat ?old # rest"
    if "archive os now ?tr ?old = Some (r, t)"
    using archive_calls [OF that] by auto
  from assms d a show ?thesis
    by (auto simp: Delete_def Let_def split: if_splits sum.splits option.splits)
qed

text \<open>
  Claim C10. \<open>Delete\<close> finds the local path of a volume by replacing the first occurrence
  of the export root in the volume's path, wherever that occurrence is: a path in
  which the export root does not occur is the local path as it is, and when the first
  occurrence comes after some text \<open>a\<close>, that text stays in front of the mount root. The
  path so found is the one \<open>Delete\<close> works on: its first call is \<open>os.Stat\<close> on it.
\<close>

theorem Delete_localPath:
  "((\<nexists>a b. pth = a @ path p @ b) \<longrightarrow> localPath p pth = pth) \<and>
   (\<forall>a b. pth = a @ path p @ b \<and>
          (\<forall>a' b'. pth = a' @ path p @ b' \<longrightarrow> length a \<le> length a')
      \<longrightarrow> localPath p pth = a @ mountPath @ b) \<and>
   (\<forall>nfs r t. NFS volume = Some nfs \<and> Path nfs = pth \<and> Delete p os now tr volume = Some (r, t)
      \<longrightarrow> (\<exists>rest. t = tr @ Stat (localPath p pth) # rest))"
proof (intro conjI allI impI)
  assume "\<nexists>a b. pth = a @ path p @ b"
  then have "Index pth (path p) = None"
    by (metis Index_Some append_take_drop_id drop_drop not_None_eq)
  then show "localPath p pth = pth" by (simp add: localPath_def Replace1_def)
next
  fix a b
  assume h: "pth = a @ path p @ b \<and>
    (\<forall>a' b'. pth = a' @ path p @ b' \<longrightarrow> length a \<le> length a')"
  then have "Index pth (path p) = Some (length a)" by (intro Index_first) auto
  with h show "localPath p pth = a @ mountPath @ b"
    by (auto simp: localPath_def Replace1_def)
next
  fix nfs r t
  assume "NFS volume = Some nfs \<and> Path nfs = pth \<and> Delete p os now tr volume = Some (r, t)"
  then show "\<exists>rest. t = tr @ Stat (localPath p pth) # rest"
    using Delete_first_call [of p os now tr volume r t nfs] by auto
qed

theorem Delete_localPath_witness:
  "localPath ex_provisioner ''/other/x'' = ''/other/x'' \<and>
   localPath ex_provisioner ''/data/export/x'' = ''/data'' @ mountPath @ ''/x'' \<and>
   Delete ex_provisioner os_missing ex_time []
       (ex_volume \<lparr> NFS := Some \<lparr> Server = ''10.0.0.1'', Path = ''/data/export/x'', ReadOnly = False \<rparr> \<rparr>) =
     Some (Returns None, [Stat ''/data/persistentvolumes//x''])"
proof -
  let ?v = "ex_volume \<lparr> NFS := Some \<lparr> Server = ''10.0.0.1'', Path = ''/data/export/x'', ReadOnly = False \<rparr> \<rparr>"
  have i1: "Index ''/other/x'' ''/export'' = None"
    by (simp add: HasPrefix_def)
  have n: "\<nexists>a b. ''/other/x'' = a @ path ex_provisioner @ b"
    using Index_None [OF i1] by (simp add: ex_provisioner_def)
  have i2: "Index ''/data/export/x'' ''/export'' = Some 5"
    by (simp add: HasPrefix_def)
  have m: "\<forall>a' b'. ''/data/export/x'' = a' @ path ex_provisioner @ b' \<longrightarrow> length ''/data'' \<le> length a'"
    using Index_Some [OF i2] by (simp add: ex_provisioner_def eval_nat_numeral)
  have e: "''/data/export/x'' = ''/data'' @ path ex_provisioner @ ''/x''"
    by (simp add: ex_provisioner_def)
  from Delete_localPath [of "''/other/x''" ex_provisioner] n
  have 1: "localPath ex_provisioner ''/other/x'' = ''/other/x''" by blast
  from Delete_localPath [of "''/data/export/x''" ex_provisioner] m e
  have 2: "localPath ex_provisioner ''/data/export/x'' = ''/data'' @ mountPath @ ''/x''" by blast
  have 3: "Delete ex_provisioner os_missing ex_time [] ?v =
      Some (Returns None, [Stat ''/data/persistentvolumes//x''])"
    by (simp add: Delete_def 2 os_missing_def os_IsNotExist_def mountPath_def)
  from 1 2 3 show ?thesis by (intro conjI)
qed

end
